theory Spec2Isabelle
  imports Main
begin

section \<open>Tenant server orchestration (pkg/server/server_controller_orchestration.go)\<close>

text \<open>
  The orchestrator is concurrent Go code: per tenant, \<open>startControlledServer\<close> starts the
  tasks \<open>propagate-close\<close> and \<open>managed-tenant-server\<close>, and the latter starts one
  \<open>propagate-close-tenant\<close> task per start attempt. The tasks share channels, an atomic
  flag and a few variables. The embedding is an interleaving semantics: one step is one
  statement of one task (or one event of the environment), a schedule is a list of steps.
  Functions that run under the registry lock are embedded as state transformers.
\<close>

subsection \<open>Values\<close>

type_synonym tenant_name = string

text \<open>
  A channel of type \<open>chan struct{}\<close> on which the code only ever calls \<open>close\<close>: the
  model counts the \<open>close\<close> calls executed on it. \<open>0\<close> is an open channel, \<open>1\<close> a closed
  one; a second \<open>close\<close> is Go's panic "close of closed channel".
\<close>

type_synonym chan = nat

definition closed :: "chan \<Rightarrow> bool" where
  "closed c = (0 < c)"

definition close_chan :: "chan \<Rightarrow> chan" where
  "close_chan c = Suc c"

text \<open>
  Errors: \<open>errors.New\<close>, \<open>errors.Wrap\<close>, \<open>errors.WithStack\<close>, and errors produced by code
  outside this file (the stopper, the context, the tenant server factory), which are opaque.
  A Go \<open>error\<close> value is an \<open>error option\<close>, \<open>nil\<close> being \<open>None\<close>.
\<close>

datatype error = New string | Wrap error string | WithStack error | Opaque nat

text \<open>An \<open>onDemandServer\<close> is opaque; \<open>nil\<close> is \<open>None\<close>.\<close>

type_synonym srv = nat

subsection \<open>Program counters of the three tasks\<close>

text \<open>The \<open>select\<close> of \<open>propagate-close\<close> (lines 241-271).\<close>

datatype prop_case = PStopped | PQuiesce | PStopRequest | PCtxDone

datatype prop_pc =
    PropNotSpawned
  | PropWait
  | PropSend bool
  | PropStop
  | PropDone

text \<open>The \<open>select\<close> of \<open>propagate-close-tenant\<close> (lines 335-368).\<close>

datatype pt_case = TTenantQuiesce | TCtlQuiesce | TOuterQuiesce

datatype pt_pc =
    PtSpawned
  | PtWait nat
  | PtReceive
  | PtDrain
  | PtStop
  | PtDone

text \<open>The \<open>select\<close> of the running control loop (lines 429-438).\<close>

datatype wait_case = WTenantQuiesce | WShutdownRequested

text \<open>The outcome of one attempt to create and start the server (lines 375-391).\<close>

datatype attempt =
    NewServerFails error
  | PreStartFails error
  | AcceptClientsFails error
  | Started srv

datatype ctl_pc =
    CtlNotSpawned
  | CtlRetryNext
  | CtlSpawn
  | CtlTry
  | CtlFailStop
  | CtlFailRecord
  | CtlPublish
  | CtlSetStarted
  | CtlCloseStarted
  | CtlWait
  | CtlSelfSwap
  | CtlSelfClose
  | CtlDeferSwap
  | CtlDeferClose
  | CtlDeferUnsetStarted
  | CtlDeferCloseStopped
  | CtlDeferSetStartErr
  | CtlDeferCloseStarted
  | CtlDeferDelete
  | CtlDone

subsection \<open>The state of one call of \<open>startControlledServer\<close>\<close>

text \<open>
  The fields are
  \<^item> the \<open>serverEntry\<close> with its \<open>serverState\<close>: \<open>tenantName\<close> to \<open>started\<close>, and the
    channels \<open>stoppedCh\<close> and \<open>startedOrStoppedCh\<close>, which are the fields \<open>stopped\<close> and
    \<open>startedOrStopped\<close>;
  \<^item> the variables of \<open>startControlledServer\<close> that its closures share:
    \<open>stoppedChClosed\<close> (the atomic flag of \<open>requestStop\<close>), \<open>stopRequestCh\<close>,
    \<open>useGracefulDrainDuringTenantShutdown\<close> (a channel of capacity one: \<open>None\<close> is the
    empty buffer), the quiesce signal of \<open>ctlStopper\<close>, and in the control loop
    \<open>startedOrStoppedChAlreadyClosed\<close>, \<open>tenantServer\<close>, \<open>err\<close> and \<open>tenantStopper\<close>;
  \<^item> the signals of the environment as the tasks of this entry see them:
    \<open>c.stopper.ShouldQuiesce()\<close> closed, \<open>topCtx.Done()\<close> closed, and a value waiting in
    \<open>tenantServer.shutdownRequested()\<close>;
  \<^item> the program counters of \<open>propagate-close\<close> and \<open>managed-tenant-server\<close>;
  \<^item> four observation fields that the code does not have: \<open>requestStopCalls\<close> counts the
    invocations of the \<open>requestStop\<close> closure, \<open>externalPending\<close> counts the invocations
    from outside the control loop that have executed \<open>Swap\<close> with result \<open>false\<close> and not
    yet \<open>close\<close>, \<open>propCase\<close> is the case that the \<open>select\<close> of \<open>propagate-close\<close> has
    taken, and \<open>drainCalls\<close> lists the calls of \<open>CallDrainServerSide\<close> with the value of
    \<open>tenantServer\<close> at the call.

  The control loop makes a new stopper in every attempt and assigns it to the one variable
  \<open>tenantStopper\<close>: \<open>tenantStoppers\<close> holds the quiesce signal of the stopper of every
  attempt, and the variable is the last one. \<open>ptTasks\<close> holds the
  \<open>propagate-close-tenant\<close> tasks, one per attempt. Their closure reads the variable
  \<open>tenantStopper\<close> when it enters its \<open>select\<close> and again when it calls \<open>Stop\<close>:
  \<open>PtSpawned\<close> is a task that has not entered its \<open>select\<close>, \<open>PtWait j\<close> one that is
  blocked in it on the stopper of attempt \<open>j\<close>.
\<close>

record orchestration =
  tenantName :: tenant_name
  server :: "srv option"
  startErr :: "error option"
  started :: bool
  stoppedChClosed :: bool
  stopRequestCh :: chan
  stoppedCh :: chan
  startedOrStoppedCh :: chan
  useGracefulDrainDuringTenantShutdown :: "bool option"
  ctlStopperQuiesce :: bool
  outerQuiesce :: bool
  topCtxDone :: bool
  shutdownRequested :: bool
  propagateClose :: prop_pc
  managed :: ctl_pc
  startedOrStoppedChAlreadyClosed :: bool
  tenantServer :: "srv option"
  err :: "error option"
  tenantStoppers :: "bool list"
  ptTasks :: "pt_pc list"
  requestStopCalls :: nat
  externalPending :: nat
  propCase :: "prop_case option"
  drainCalls :: "srv option list"

text \<open>
  The entry as \<open>startControlledServer\<close> builds it (lines 203-236), before any task runs.
\<close>

definition new_entry :: "tenant_name \<Rightarrow> orchestration" where
  "new_entry name =
     \<lparr> tenantName = name, server = None, startErr = None, started = False,
       stoppedChClosed = False, stopRequestCh = 0, stoppedCh = 0, startedOrStoppedCh = 0,
       useGracefulDrainDuringTenantShutdown = None, ctlStopperQuiesce = False,
       outerQuiesce = False, topCtxDone = False, shutdownRequested = False,
       propagateClose = PropNotSpawned, managed = CtlNotSpawned,
       startedOrStoppedChAlreadyClosed = False, tenantServer = None, err = None,
       tenantStoppers = [], ptTasks = [],
       requestStopCalls = 0, externalPending = 0, propCase = None, drainCalls = [] \<rparr>"

text \<open>The entry that \<open>startControlledServer\<close> returns: both tasks are running.\<close>

definition spawned_entry :: "tenant_name \<Rightarrow> orchestration" where
  "spawned_entry name =
     (new_entry name)\<lparr> propagateClose := PropWait, managed := CtlRetryNext \<rparr>"

subsection \<open>The \<open>requestStop\<close> closure (lines 211-215)\<close>

text \<open>
  \<open>if !stoppedChClosed.Swap(true) { close(stopRequestCh) }\<close>. \<open>Swap\<close> is atomic; the
  \<open>close\<close> is a second statement. \<open>requestStop_swap\<close> returns the new state and the
  value of the condition, \<open>requestStop_close\<close> is the body of the \<open>if\<close>.
\<close>

definition requestStop_swap :: "orchestration \<Rightarrow> orchestration \<times> bool" where
  "requestStop_swap s =
     (s\<lparr> stoppedChClosed := True, requestStopCalls := Suc (requestStopCalls s) \<rparr>,
      \<not> stoppedChClosed s)"

definition requestStop_close :: "orchestration \<Rightarrow> orchestration" where
  "requestStop_close s = s\<lparr> stopRequestCh := close_chan (stopRequestCh s) \<rparr>"

text \<open>A call of \<open>requestStop\<close> that no other task interleaves with.\<close>

definition requestStop :: "orchestration \<Rightarrow> orchestration" where
  "requestStop s =
     (let (s', first) = requestStop_swap s
      in if first then requestStop_close s' else s')"

subsection \<open>Steps\<close>

text \<open>
  One step is one statement of one task, or one event of the environment:
  \<^item> \<open>ExtRequestStopSwap\<close>, \<open>ExtRequestStopClose\<close>: the two statements of a \<open>requestStop\<close>
    invoked from outside the control loop (the scan, \<open>Close\<close>, \<open>drain\<close>);
  \<^item> \<open>OuterQuiesce\<close>, \<open>TopCtxCancel\<close>, \<open>ShutdownRequest\<close>, \<open>TenantQuiesce j\<close>: the outer
    stopper quiesces, the context of the caller of \<open>startControlledServer\<close> is cancelled,
    the tenant server requests its shutdown, the stopper of attempt \<open>j\<close> quiesces because
    the tenant server shuts down on its own;
  \<^item> \<open>PropSelect\<close>, \<open>PropSendDrain\<close>, \<open>PropStopCtl\<close>: \<open>propagate-close\<close> (lines 240-272);
  \<^item> \<open>RetryNext\<close> to \<open>DeferDelete\<close>: \<open>managed-tenant-server\<close> (lines 280-439), the steps
    \<open>Defer...\<close> being its deferred cleanup (lines 282-301). \<open>RetryNext\<close> carries the
    result of \<open>retry.Next()\<close>, \<open>SpawnPropagateCloseTenant\<close> says whether
    \<open>ctlStopper.RunAsyncTask\<close> started the task, \<open>TryCreate\<close> carries the outcome of the
    attempt. \<open>Publish\<close> is \<open>entry.server = tenantServer\<close> together with the assignment to
    the local \<open>startedOrStoppedChAlreadyClosed\<close> that follows it. The deferred \<open>cancel()\<close>
    and the calls of the event logger change nothing that is modelled;
  \<^item> \<open>PtEnter\<close> to \<open>PtStopTenant\<close>: the \<open>propagate-close-tenant\<close> task of an attempt
    (lines 334-369).
\<close>

datatype action =
    ExtRequestStopSwap
  | ExtRequestStopClose
  | OuterQuiesce
  | TopCtxCancel
  | ShutdownRequest
  | TenantQuiesce nat
  | PropSelect prop_case
  | PropSendDrain
  | PropStopCtl
  | RetryNext bool
  | SpawnPropagateCloseTenant bool
  | TryCreate attempt
  | FailStop
  | FailRecord
  | Publish
  | SetStarted
  | CloseStartedOrStopped
  | WaitSelect wait_case
  | SelfSwap
  | SelfClose
  | DeferSwap
  | DeferClose
  | DeferUnsetStarted
  | DeferCloseStopped
  | DeferSetStartErr
  | DeferCloseStartedOrStopped
  | DeferDelete
  | PtEnter nat
  | PtSelect nat pt_case
  | PtRecv nat
  | PtCallDrain nat
  | PtStopTenant nat

text \<open>The error that the function literal of lines 375-391 returns.\<close>

fun attempt_error :: "attempt \<Rightarrow> error option" where
  "attempt_error (NewServerFails e) = Some (Wrap e ''while creating server'')"
| "attempt_error (PreStartFails e) = Some (Wrap e ''while starting server'')"
| "attempt_error (AcceptClientsFails e) = Some (Wrap e ''while accepting clients'')"
| "attempt_error (Started v) = None"

fun attempt_server :: "attempt \<Rightarrow> srv option" where
  "attempt_server (Started v) = Some v"
| "attempt_server _ = None"

text \<open>Which case of the \<open>select\<close> of \<open>propagate-close\<close> can be taken.\<close>

fun prop_ready :: "prop_case \<Rightarrow> orchestration \<Rightarrow> bool" where
  "prop_ready PStopped s = closed (stoppedCh s)"
| "prop_ready PQuiesce s = outerQuiesce s"
| "prop_ready PStopRequest s = closed (stopRequestCh s)"
| "prop_ready PCtxDone s = topCtxDone s"

fun prop_next :: "prop_case \<Rightarrow> prop_pc" where
  "prop_next PStopped = PropDone"
| "prop_next PQuiesce = PropSend False"
| "prop_next PStopRequest = PropSend True"
| "prop_next PCtxDone = PropSend False"

text \<open>The value that \<open>propagate-close\<close> is about to send, if it is at a send.\<close>

fun prop_sends :: "prop_pc \<Rightarrow> bool option" where
  "prop_sends (PropSend b) = Some b"
| "prop_sends _ = None"

text \<open>The stopper that a \<open>propagate-close-tenant\<close> task waits on, if it is waiting.\<close>

fun pt_watches :: "pt_pc \<Rightarrow> nat option" where
  "pt_watches (PtWait j) = Some j"
| "pt_watches _ = None"

definition pt_waiting :: "nat \<Rightarrow> orchestration \<Rightarrow> bool" where
  "pt_waiting i s = (i < length (ptTasks s) \<and> pt_watches (ptTasks s ! i) \<noteq> None)"

definition pt_watched_quiesce :: "nat \<Rightarrow> orchestration \<Rightarrow> bool" where
  "pt_watched_quiesce i s =
     (case pt_watches (ptTasks s ! i) of
        Some j \<Rightarrow> j < length (tenantStoppers s) \<and> tenantStoppers s ! j
      | None \<Rightarrow> False)"

text \<open>Which case of the \<open>select\<close> of \<open>propagate-close-tenant\<close> can be taken.\<close>

fun pt_ready :: "pt_case \<Rightarrow> nat \<Rightarrow> orchestration \<Rightarrow> bool" where
  "pt_ready TTenantQuiesce i s = pt_watched_quiesce i s"
| "pt_ready TCtlQuiesce i s = ctlStopperQuiesce s"
| "pt_ready TOuterQuiesce i s = outerQuiesce s"

fun pt_next :: "pt_case \<Rightarrow> pt_pc" where
  "pt_next TTenantQuiesce = PtDone"
| "pt_next TCtlQuiesce = PtReceive"
| "pt_next TOuterQuiesce = PtStop"

text \<open>
  Modelled from the spec: the stopper (the package \<open>util/stop\<close> is not among the sources).
  \<open>Stop\<close> makes the stopper quiesce, which closes its channel \<open>ShouldQuiesce()\<close>, and
  waits for the tasks of the stopper; the wait changes nothing that the tasks of this file
  read and is not modelled. \<open>stop_tenantStopper\<close> is \<open>tenantStopper.Stop(ctx)\<close> on the
  stopper that the variable \<open>tenantStopper\<close> holds.
\<close>

definition stop_tenantStopper :: "orchestration \<Rightarrow> orchestration" where
  "stop_tenantStopper s =
     (if tenantStoppers s = [] then s
      else s\<lparr> tenantStoppers := (tenantStoppers s)[length (tenantStoppers s) - 1 := True] \<rparr>)"

definition tenantStopper_quiesce :: "orchestration \<Rightarrow> bool" where
  "tenantStopper_quiesce s = (tenantStoppers s \<noteq> [] \<and> last (tenantStoppers s))"

text \<open>
  Modelled from the spec: the retry policy of section 4.1 (the package \<open>util/retry\<close> is
  not among the sources). \<open>retry.Next()\<close> returns true when its backoff has elapsed, which
  can be at any time, and can return false only when the cancellation it was given has
  fired: here the \<open>Closer\<close> \<open>ctlStopper.ShouldQuiesce()\<close> and the context that is
  cancelled on the same quiesce (lines 313-320). \<open>retry_next result s\<close> says that
  \<open>retry.Next()\<close> can return \<open>result\<close> in the state \<open>s\<close>.
\<close>

definition retry_next :: "bool \<Rightarrow> orchestration \<Rightarrow> bool" where
  "retry_next result s = (result \<or> ctlStopperQuiesce s)"

text \<open>Which case of the \<open>select\<close> of the running control loop can be taken.\<close>

fun wait_ready :: "wait_case \<Rightarrow> orchestration \<Rightarrow> bool" where
  "wait_ready WTenantQuiesce s = tenantStopper_quiesce s"
| "wait_ready WShutdownRequested s = shutdownRequested s"

fun wait_next :: "wait_case \<Rightarrow> ctl_pc" where
  "wait_next WTenantQuiesce = CtlDeferSwap"
| "wait_next WShutdownRequested = CtlSelfSwap"

definition set_pt :: "nat \<Rightarrow> pt_pc \<Rightarrow> orchestration \<Rightarrow> orchestration" where
  "set_pt i p s = s\<lparr> ptTasks := (ptTasks s)[i := p] \<rparr>"

definition pt_at :: "nat \<Rightarrow> pt_pc \<Rightarrow> orchestration \<Rightarrow> bool" where
  "pt_at i p s = (i < length (ptTasks s) \<and> ptTasks s ! i = p)"

fun step :: "action \<Rightarrow> orchestration \<Rightarrow> orchestration option" where
  "step ExtRequestStopSwap s =
     (let (s', first) = requestStop_swap s
      in if first then Some (s'\<lparr> externalPending := Suc (externalPending s') \<rparr>)
         else Some s')"
| "step ExtRequestStopClose s =
     (if 0 < externalPending s
      then Some ((requestStop_close s)\<lparr> externalPending := externalPending s - 1 \<rparr>)
      else None)"
| "step OuterQuiesce s = Some (s\<lparr> outerQuiesce := True \<rparr>)"
| "step TopCtxCancel s = Some (s\<lparr> topCtxDone := True \<rparr>)"
| "step ShutdownRequest s =
     (if tenantServer s \<noteq> None then Some (s\<lparr> shutdownRequested := True \<rparr>) else None)"
| "step (TenantQuiesce j) s =
     (if j < length (tenantStoppers s)
      then Some (s\<lparr> tenantStoppers := (tenantStoppers s)[j := True] \<rparr>)
      else None)"
| "step (PropSelect c) s =
     (if propagateClose s = PropWait \<and> prop_ready c s
      then Some (s\<lparr> propagateClose := prop_next c, propCase := Some c \<rparr>)
      else None)"
| "step PropSendDrain s =
     (if prop_sends (propagateClose s) \<noteq> None \<and>
         useGracefulDrainDuringTenantShutdown s = None
      then Some (s\<lparr> useGracefulDrainDuringTenantShutdown := prop_sends (propagateClose s),
                    propagateClose := PropStop \<rparr>)
      else None)"
| "step PropStopCtl s =
     (if propagateClose s = PropStop
      then Some (s\<lparr> ctlStopperQuiesce := True, propagateClose := PropDone \<rparr>)
      else None)"
| "step (RetryNext b) s =
     (if managed s = CtlRetryNext \<and> retry_next b s
      then (if b
            then Some (s\<lparr> tenantStoppers := tenantStoppers s @ [False], managed := CtlSpawn \<rparr>)
            else Some (s\<lparr> managed := CtlDeferSwap \<rparr>))
      else None)"
| "step (SpawnPropagateCloseTenant ok) s =
     (if managed s = CtlSpawn
      then (if ok
            then Some (s\<lparr> ptTasks := ptTasks s @ [PtSpawned], managed := CtlTry \<rparr>)
            else Some ((stop_tenantStopper s)\<lparr> managed := CtlDeferSwap \<rparr>))
      else None)"
| "step (TryCreate r) s =
     (if managed s = CtlTry
      then (if attempt_error r \<noteq> None
            then Some (s\<lparr> err := attempt_error r, managed := CtlFailStop \<rparr>)
            else Some (s\<lparr> err := None, tenantServer := attempt_server r,
                          managed := CtlPublish \<rparr>))
      else None)"
| "step FailStop s =
     (if managed s = CtlFailStop
      then Some ((stop_tenantStopper s)\<lparr> managed := CtlFailRecord \<rparr>)
      else None)"
| "step FailRecord s =
     (if managed s = CtlFailRecord
      then Some (s\<lparr> startErr := err s, managed := CtlRetryNext \<rparr>)
      else None)"
| "step Publish s =
     (if managed s = CtlPublish
      then Some (s\<lparr> server := tenantServer s, startedOrStoppedChAlreadyClosed := True,
                    managed := CtlSetStarted \<rparr>)
      else None)"
| "step SetStarted s =
     (if managed s = CtlSetStarted
      then Some (s\<lparr> started := True, managed := CtlCloseStarted \<rparr>)
      else None)"
| "step CloseStartedOrStopped s =
     (if managed s = CtlCloseStarted
      then Some (s\<lparr> startedOrStoppedCh := close_chan (startedOrStoppedCh s),
                    managed := CtlWait \<rparr>)
      else None)"
| "step (WaitSelect c) s =
     (if managed s = CtlWait \<and> wait_ready c s
      then Some (s\<lparr> managed := wait_next c \<rparr>)
      else None)"
| "step SelfSwap s =
     (if managed s = CtlSelfSwap
      then (let (s', first) = requestStop_swap s
            in if first then Some (s'\<lparr> managed := CtlSelfClose \<rparr>)
               else Some (s'\<lparr> managed := CtlDeferSwap \<rparr>))
      else None)"
| "step SelfClose s =
     (if managed s = CtlSelfClose
      then Some ((requestStop_close s)\<lparr> managed := CtlDeferSwap \<rparr>)
      else None)"
| "step DeferSwap s =
     (if managed s = CtlDeferSwap
      then (let (s', first) = requestStop_swap s
            in if first then Some (s'\<lparr> managed := CtlDeferClose \<rparr>)
               else Some (s'\<lparr> managed := CtlDeferUnsetStarted \<rparr>))
      else None)"
| "step DeferClose s =
     (if managed s = CtlDeferClose
      then Some ((requestStop_close s)\<lparr> managed := CtlDeferUnsetStarted \<rparr>)
      else None)"
| "step DeferUnsetStarted s =
     (if managed s = CtlDeferUnsetStarted
      then Some (s\<lparr> started := False, managed := CtlDeferCloseStopped \<rparr>)
      else None)"
| "step DeferCloseStopped s =
     (if managed s = CtlDeferCloseStopped
      then Some (s\<lparr> stoppedCh := close_chan (stoppedCh s),
                    managed := (if startedOrStoppedChAlreadyClosed s then CtlDeferDelete
                                else CtlDeferSetStartErr) \<rparr>)
      else None)"
| "step DeferSetStartErr s =
     (if managed s = CtlDeferSetStartErr
      then Some (s\<lparr> startErr := Some (New ''server stop before successful start''),
                    managed := CtlDeferCloseStarted \<rparr>)
      else None)"
| "step DeferCloseStartedOrStopped s =
     (if managed s = CtlDeferCloseStarted
      then Some (s\<lparr> startedOrStoppedCh := close_chan (startedOrStoppedCh s),
                    managed := CtlDeferDelete \<rparr>)
      else None)"
| "step DeferDelete s =
     (if managed s = CtlDeferDelete then Some (s\<lparr> managed := CtlDone \<rparr>) else None)"
| "step (PtEnter i) s =
     (if pt_at i PtSpawned s
      then Some (set_pt i (PtWait (length (tenantStoppers s) - 1)) s)
      else None)"
| "step (PtSelect i c) s =
     (if pt_waiting i s \<and> pt_ready c i s
      then Some (set_pt i (pt_next c) s)
      else None)"
| "step (PtRecv i) s =
     (if pt_at i PtReceive s
      then Some (set_pt i
                   (if useGracefulDrainDuringTenantShutdown s = Some True then PtDrain
                    else PtStop)
                   (s\<lparr> useGracefulDrainDuringTenantShutdown := None \<rparr>))
      else None)"
| "step (PtCallDrain i) s =
     (if pt_at i PtDrain s
      then Some (set_pt i PtStop (s\<lparr> drainCalls := drainCalls s @ [tenantServer s] \<rparr>))
      else None)"
| "step (PtStopTenant i) s =
     (if pt_at i PtStop s then Some (set_pt i PtDone (stop_tenantStopper s)) else None)"

text \<open>
  In \<open>PtRecv\<close>, the inner \<open>select\<close> (lines 340-363) receives the value in the buffer if
  there is one and takes its \<open>default\<close> case otherwise; only a received \<open>true\<close> leads to
  the call of \<open>CallDrainServerSide\<close>.

  A schedule runs from a state; the result is \<open>None\<close> when one of its steps cannot be
  taken.
\<close>

fun run :: "action list \<Rightarrow> orchestration \<Rightarrow> orchestration option" where
  "run [] s = Some s"
| "run (a # as) s = (case step a s of None \<Rightarrow> None | Some s' \<Rightarrow> run as s')"

subsection \<open>Invariants of the schedules\<close>

lemma if_None_eq_Some: "((if c then X else None) = Some y) = (c \<and> X = Some y)"
  by simp

lemmas step_defs = requestStop_swap_def requestStop_close_def close_chan_def closed_def
  set_pt_def pt_at_def stop_tenantStopper_def tenantStopper_quiesce_def retry_next_def
  if_None_eq_Some

lemma run_invariant:
  assumes pres: "\<And>a s s'. P s \<Longrightarrow> step a s = Some s' \<Longrightarrow> P s'"
  shows "P s \<Longrightarrow> run sched s = Some s' \<Longrightarrow> P s'"
proof (induction sched arbitrary: s)
  case Nil
  then show ?case by simp
next
  case (Cons a sched)
  then show ?case by (auto split: option.splits dest: pres)
qed

text \<open>
  The \<open>requestStop\<close> invocations: the flag is set as soon as one invocation has executed
  \<open>Swap\<close>, and the one invocation that found it unset either is between its \<open>Swap\<close> and
  its \<open>close\<close> or has closed the channel.
\<close>

fun closing_pc :: "ctl_pc \<Rightarrow> nat" where
  "closing_pc CtlSelfClose = 1"
| "closing_pc CtlDeferClose = 1"
| "closing_pc _ = 0"

definition stop_inv :: "orchestration \<Rightarrow> bool" where
  "stop_inv s =
     (stoppedChClosed s = (0 < requestStopCalls s) \<and>
      stopRequestCh s + externalPending s + closing_pc (managed s) =
        of_bool (stoppedChClosed s))"

lemma closing_pc_wait_next [simp]: "closing_pc (wait_next c) = 0"
  by (cases c) simp_all

lemma step_stop_inv: "stop_inv s \<Longrightarrow> step a s = Some s' \<Longrightarrow> stop_inv s'"
  by (cases a; clarsimp simp: stop_inv_def step_defs split: if_splits)

lemma stop_inv_spawned: "stop_inv (spawned_entry name)"
  by (simp add: stop_inv_def spawned_entry_def new_entry_def)

lemma run_stop_inv: "run sched (spawned_entry name) = Some s \<Longrightarrow> stop_inv s"
  using run_invariant [where P = stop_inv, OF step_stop_inv stop_inv_spawned] .

text \<open>What the program counter of the control loop says about the entry.\<close>

fun sos_at :: "ctl_pc \<Rightarrow> bool \<Rightarrow> nat" where
  "sos_at CtlWait b = 1"
| "sos_at CtlSelfSwap b = 1"
| "sos_at CtlSelfClose b = 1"
| "sos_at CtlDeferSwap b = of_bool b"
| "sos_at CtlDeferClose b = of_bool b"
| "sos_at CtlDeferUnsetStarted b = of_bool b"
| "sos_at CtlDeferCloseStopped b = of_bool b"
| "sos_at CtlDeferDelete b = 1"
| "sos_at CtlDone b = 1"
| "sos_at _ b = 0"

fun stopped_at :: "ctl_pc \<Rightarrow> nat" where
  "stopped_at CtlDeferSetStartErr = 1"
| "stopped_at CtlDeferCloseStarted = 1"
| "stopped_at CtlDeferDelete = 1"
| "stopped_at CtlDone = 1"
| "stopped_at _ = 0"

fun started_at :: "ctl_pc \<Rightarrow> bool \<Rightarrow> bool" where
  "started_at CtlCloseStarted b = True"
| "started_at CtlWait b = True"
| "started_at CtlSelfSwap b = True"
| "started_at CtlSelfClose b = True"
| "started_at CtlDeferSwap b = b"
| "started_at CtlDeferClose b = b"
| "started_at CtlDeferUnsetStarted b = b"
| "started_at _ b = False"

fun already_at :: "ctl_pc \<Rightarrow> bool option" where
  "already_at CtlSetStarted = Some True"
| "already_at CtlCloseStarted = Some True"
| "already_at CtlWait = Some True"
| "already_at CtlSelfSwap = Some True"
| "already_at CtlSelfClose = Some True"
| "already_at CtlDeferSwap = None"
| "already_at CtlDeferClose = None"
| "already_at CtlDeferUnsetStarted = None"
| "already_at CtlDeferCloseStopped = None"
| "already_at CtlDeferDelete = None"
| "already_at CtlDone = None"
| "already_at _ = Some False"

fun requested_at :: "ctl_pc \<Rightarrow> bool" where
  "requested_at CtlSelfClose = True"
| "requested_at CtlDeferClose = True"
| "requested_at CtlDeferUnsetStarted = True"
| "requested_at CtlDeferCloseStopped = True"
| "requested_at CtlDeferSetStartErr = True"
| "requested_at CtlDeferCloseStarted = True"
| "requested_at CtlDeferDelete = True"
| "requested_at CtlDone = True"
| "requested_at _ = False"

fun stop_error_at :: "ctl_pc \<Rightarrow> bool" where
  "stop_error_at CtlDeferCloseStarted = True"
| "stop_error_at CtlDeferDelete = True"
| "stop_error_at CtlDone = True"
| "stop_error_at _ = False"

definition ctl_inv :: "orchestration \<Rightarrow> bool" where
  "ctl_inv s =
     (startedOrStoppedCh s = sos_at (managed s) (startedOrStoppedChAlreadyClosed s) \<and>
      stoppedCh s = stopped_at (managed s) \<and>
      started s = started_at (managed s) (startedOrStoppedChAlreadyClosed s) \<and>
      (already_at (managed s) = None \<or>
       already_at (managed s) = Some (startedOrStoppedChAlreadyClosed s)) \<and>
      (server s \<noteq> None) = startedOrStoppedChAlreadyClosed s \<and>
      (managed s = CtlPublish \<longrightarrow> tenantServer s \<noteq> None) \<and>
      (requested_at (managed s) \<longrightarrow> stoppedChClosed s) \<and>
      (stop_error_at (managed s) \<and> \<not> startedOrStoppedChAlreadyClosed s \<longrightarrow>
         startErr s = Some (New ''server stop before successful start'')))"

lemma attempt_server_Some [simp]: "attempt_error r = None \<Longrightarrow> \<exists>v. attempt_server r = Some v"
  by (cases r) simp_all

lemma wait_next_facts [simp]:
  "sos_at (wait_next c) b = (if c = WTenantQuiesce then of_bool b else 1)"
  "stopped_at (wait_next c) = 0"
  "started_at (wait_next c) b = (if c = WTenantQuiesce then b else True)"
  "already_at (wait_next c) = (if c = WTenantQuiesce then None else Some True)"
  "requested_at (wait_next c) = False"
  "stop_error_at (wait_next c) = False"
  "wait_next c \<noteq> CtlPublish"
  by (cases c; simp)+

lemma step_ctl_inv: "ctl_inv s \<Longrightarrow> step a s = Some s' \<Longrightarrow> ctl_inv s'"
  by (cases a; clarsimp simp: ctl_inv_def step_defs split: if_splits)

lemma ctl_inv_spawned: "ctl_inv (spawned_entry name)"
  by (simp add: ctl_inv_def spawned_entry_def new_entry_def)

lemma run_ctl_inv: "run sched (spawned_entry name) = Some s \<Longrightarrow> ctl_inv s"
  using run_invariant [where P = ctl_inv, OF step_ctl_inv ctl_inv_spawned] .



lemma prop_next_facts [simp]:
  "(prop_sends (prop_next c) = Some True) = (c = PStopRequest)"
  "prop_next c \<noteq> PropNotSpawned" "prop_next c \<noteq> PropWait"
  by (cases c; simp)+

lemma pt_next_not_drain [simp]: "PtDrain \<noteq> pt_next c"
  by (cases c) simp_all





lemmas run_defs = spawned_entry_def new_entry_def step_defs

section \<open>The \<open>requestStop\<close> closure is single-fire\<close>

text \<open>
  \<open>propagate-close\<close> executes its \<open>select\<close> once, so it calls \<open>ctlStopper.Stop\<close> at
  most once in a schedule.
\<close>

fun stop_budget :: "prop_pc \<Rightarrow> nat" where
  "stop_budget PropWait = 1"
| "stop_budget (PropSend b) = 1"
| "stop_budget PropStop = 1"
| "stop_budget _ = 0"

lemma stop_budget_prop_next [simp]: "stop_budget (prop_next c) \<le> Suc 0"
  by (cases c) simp_all







section \<open>Resolution of \<open>startedOrStopped\<close> and \<open>stopped\<close>\<close>

lemma ctl_inv_channels:
  assumes "ctl_inv s"
  shows "startedOrStoppedCh s \<le> 1 \<and> stoppedCh s \<le> 1 \<and>
         (managed s = CtlDone \<longrightarrow> startedOrStoppedCh s = 1 \<and> stoppedCh s = 1) \<and>
         (server s \<noteq> None \<and> closed (stoppedCh s) \<longrightarrow> closed (startedOrStoppedCh s)) \<and>
         (server s = None \<and> closed (startedOrStoppedCh s) \<longrightarrow>
            closed (stoppedCh s) \<and>
            startErr s = Some (New ''server stop before successful start''))"
  using assms by (cases "managed s"; simp add: ctl_inv_def closed_def; fastforce)

text \<open>
  An attempt fails, an explicit \<open>requestStop\<close> makes \<open>propagate-close\<close> stop the control
  stopper, \<open>retry.Next\<close> returns false and the deferred cleanup runs up to and including
  \<open>close(stoppedCh)\<close> (line 291).
\<close>

definition abandoned_schedule :: "action list" where
  "abandoned_schedule =
     [RetryNext True, SpawnPropagateCloseTenant True, TryCreate (NewServerFails (Opaque 1)),
      FailStop, FailRecord, ExtRequestStopSwap, ExtRequestStopClose, PropSelect PStopRequest,
      PropSendDrain, PropStopCtl, RetryNext False, DeferSwap, DeferUnsetStarted,
      DeferCloseStopped]"

text \<open>
  Claim C1 as stated fails on the abandoned path: after this schedule \<open>stopped\<close> is closed
  and \<open>startedOrStopped\<close> is still open, because the cleanup closes \<open>stoppedCh\<close> (line 291)
  before it closes \<open>startedOrStoppedCh\<close> (line 294).
\<close>

theorem stopped_closed_before_startedOrStopped:
  "map_option stoppedCh (run abandoned_schedule (spawned_entry ''app1'')) = Some 1 \<and>
   map_option startedOrStoppedCh (run abandoned_schedule (spawned_entry ''app1'')) = Some 0"
  by (simp add: abandoned_schedule_def run_defs)

text \<open>
  Claim C1, amended. In every state that a schedule reaches from the entry that
  \<open>startControlledServer\<close> returns:
  \<^item> \<open>startedOrStopped\<close> and \<open>stopped\<close> have each been closed at most once, and exactly
    once when the control loop has finished its cleanup;
  \<^item> on the successful path (the server has been published in the entry), \<open>stopped\<close> closed
    implies \<open>startedOrStopped\<close> closed: \<open>startedOrStopped\<close> is closed first;
  \<^item> on the abandoned path (no server published), \<open>startedOrStopped\<close> closed implies
    \<open>stopped\<close> closed and \<open>startErr\<close> is "server stop before successful start": the cleanup
    closes \<open>stopped\<close> first and resolves \<open>startedOrStopped\<close> with that error right after.
\<close>

theorem startedOrStopped_resolves_once:
  assumes "run sched (spawned_entry name) = Some s"
  shows "startedOrStoppedCh s \<le> 1 \<and> stoppedCh s \<le> 1 \<and>
         (managed s = CtlDone \<longrightarrow> startedOrStoppedCh s = 1 \<and> stoppedCh s = 1) \<and>
         (server s \<noteq> None \<and> closed (stoppedCh s) \<longrightarrow> closed (startedOrStoppedCh s)) \<and>
         (server s = None \<and> closed (startedOrStoppedCh s) \<longrightarrow>
            closed (stoppedCh s) \<and>
            startErr s = Some (New ''server stop before successful start''))"
proof -
  from assms have inv: "ctl_inv s"
    by (rule run_ctl_inv)
  then have sos: "startedOrStoppedCh s = sos_at (managed s) (startedOrStoppedChAlreadyClosed s)"
    and stp: "stoppedCh s = stopped_at (managed s)"
    by (simp_all add: ctl_inv_def)
  have once: "startedOrStoppedCh s \<le> 1 \<and> stoppedCh s \<le> 1"
    unfolding sos stp by (cases "managed s") simp_all
  have finished: "managed s = CtlDone \<longrightarrow> startedOrStoppedCh s = 1 \<and> stoppedCh s = 1"
    unfolding sos stp by simp
  have success: "server s \<noteq> None \<and> closed (stoppedCh s) \<longrightarrow> closed (startedOrStoppedCh s)"
    using ctl_inv_channels [OF inv] by blast
  have abandoned: "server s = None \<and> closed (startedOrStoppedCh s) \<longrightarrow>
      closed (stoppedCh s) \<and> startErr s = Some (New ''server stop before successful start'')"
    using ctl_inv_channels [OF inv] by blast
  from once finished success abandoned show ?thesis
    by blast
qed

text \<open>The abandoned schedule, continued to the end of the cleanup.\<close>

definition abandoned_to_the_end :: "action list" where
  "abandoned_to_the_end =
     abandoned_schedule @ [DeferSetStartErr, DeferCloseStartedOrStopped, DeferDelete]"

theorem startedOrStopped_resolves_once_witness:
  "run abandoned_to_the_end (spawned_entry ''app1'') \<noteq> None \<and>
   managed (the (run abandoned_to_the_end (spawned_entry ''app1''))) = CtlDone \<and>
   server (the (run abandoned_to_the_end (spawned_entry ''app1''))) = None \<and>
   startedOrStoppedCh (the (run abandoned_to_the_end (spawned_entry ''app1''))) = 1 \<and>
   stoppedCh (the (run abandoned_to_the_end (spawned_entry ''app1''))) = 1 \<and>
   startErr (the (run abandoned_to_the_end (spawned_entry ''app1''))) =
     Some (New ''server stop before successful start'')"
proof -
  obtain s where r: "run abandoned_to_the_end (spawned_entry ''app1'') = Some s"
    by (simp add: abandoned_to_the_end_def abandoned_schedule_def run_defs)
  have "managed s = CtlDone \<and> server s = None"
    using r by (auto simp add: abandoned_to_the_end_def abandoned_schedule_def run_defs)
  with startedOrStopped_resolves_once [OF r] r show ?thesis
    by (simp add: closed_def)
qed

text \<open>
  The cleanup has no blocking statement before it takes the registry lock: from its first
  statement the control loop can always run it to the end, whatever the other tasks have
  done, and then both channels are closed.
\<close>

definition cleanup_schedule :: "orchestration \<Rightarrow> action list" where
  "cleanup_schedule s =
     DeferSwap # (if stoppedChClosed s then [] else [DeferClose]) @
     [DeferUnsetStarted, DeferCloseStopped] @
     (if startedOrStoppedChAlreadyClosed s then []
      else [DeferSetStartErr, DeferCloseStartedOrStopped]) @
     [DeferDelete]"

lemma cleanup_completes:
  assumes "managed s = CtlDeferSwap"
  shows "\<exists>s'. run (cleanup_schedule s) s = Some s' \<and> managed s' = CtlDone \<and>
              stoppedCh s' = Suc (stoppedCh s) \<and>
              startedOrStoppedCh s' =
                (if startedOrStoppedChAlreadyClosed s then startedOrStoppedCh s
                 else Suc (startedOrStoppedCh s))"
  using assms
  by (cases "stoppedChClosed s"; cases "startedOrStoppedChAlreadyClosed s")
     (simp_all add: cleanup_schedule_def step_defs)

section \<open>What has happened when \<open>stopped\<close> fires\<close>

text \<open>
  The server starts, an outside caller of \<open>requestStop\<close> executes \<open>Swap\<close> and is
  preempted before its \<open>close\<close>, the tenant server requests its own shutdown, and the
  control loop runs its cleanup up to and including \<open>close(stoppedCh)\<close>. Both calls of
  \<open>requestStop\<close> by the control loop find the flag set and return without closing.
\<close>

definition preempted_stop_schedule :: "action list" where
  "preempted_stop_schedule =
     [RetryNext True, SpawnPropagateCloseTenant True, TryCreate (Started 7), Publish,
      SetStarted, CloseStartedOrStopped, ExtRequestStopSwap, ShutdownRequest,
      WaitSelect WShutdownRequested, SelfSwap, DeferSwap, DeferUnsetStarted,
      DeferCloseStopped]"

text \<open>
  Claim C10 as stated fails in its parenthesis: after this schedule \<open>stopped\<close> is closed,
  \<open>requestStop\<close> has been invoked three times, and the stop-request channel is still open.
\<close>

theorem stopped_closed_stopRequest_open:
  "map_option stoppedCh (run preempted_stop_schedule (spawned_entry ''app1'')) = Some 1 \<and>
   map_option requestStopCalls (run preempted_stop_schedule (spawned_entry ''app1'')) = Some 3 \<and>
   map_option stopRequestCh (run preempted_stop_schedule (spawned_entry ''app1'')) = Some 0"
  by (simp add: preempted_stop_schedule_def run_defs)

lemma stopped_at_pcs:
  "stopped_at pc = Suc n \<Longrightarrow>
     pc = CtlDeferSetStartErr \<or> pc = CtlDeferCloseStarted \<or> pc = CtlDeferDelete \<or> pc = CtlDone"
  by (cases pc) simp_all

text \<open>
  Claim C10, amended. Whenever \<open>stopped\<close> is closed, on every path of the control loop,
  the control loop is in its deferred cleanup past \<open>close(stoppedCh)\<close>, so its own call of
  \<open>requestStop\<close> has returned and \<open>started.Set(false)\<close> has been executed: the flag
  \<open>stoppedChClosed\<close> is set, \<open>started\<close> is false, and the stop-request channel is closed
  or is about to be closed by the one outside invocation that found the flag unset.
\<close>

theorem stopped_after_requestStop:
  assumes "run sched (spawned_entry name) = Some s" and "closed (stoppedCh s)"
  shows "(managed s = CtlDeferSetStartErr \<or> managed s = CtlDeferCloseStarted \<or>
          managed s = CtlDeferDelete \<or> managed s = CtlDone) \<and>
         stoppedChClosed s \<and> 0 < requestStopCalls s \<and> \<not> started s \<and>
         (stopRequestCh s = 1 \<and> externalPending s = 0 \<or>
          stopRequestCh s = 0 \<and> externalPending s = 1)"
proof -
  from assms(1) have c: "ctl_inv s" and r: "stop_inv s"
    by (rule run_ctl_inv, rule run_stop_inv)
  from c have "stoppedCh s = stopped_at (managed s)"
    by (simp add: ctl_inv_def)
  with assms(2) obtain n where "stopped_at (managed s) = Suc n"
    by (cases "stopped_at (managed s)") (simp_all add: closed_def)
  then have pc: "managed s = CtlDeferSetStartErr \<or> managed s = CtlDeferCloseStarted \<or>
      managed s = CtlDeferDelete \<or> managed s = CtlDone"
    by (rule stopped_at_pcs)
  with c have f: "stoppedChClosed s \<and> \<not> started s"
    by (auto simp: ctl_inv_def)
  with r pc have "0 < requestStopCalls s \<and> stopRequestCh s + externalPending s = 1"
    by (auto simp: stop_inv_def)
  with pc f show ?thesis
    by auto
qed

text \<open>The abandoned schedule, where the outside caller has closed the channel.\<close>

theorem stopped_after_requestStop_witness:
  "run abandoned_schedule (spawned_entry ''app1'') \<noteq> None \<and>
   closed (stoppedCh (the (run abandoned_schedule (spawned_entry ''app1'')))) \<and>
   managed (the (run abandoned_schedule (spawned_entry ''app1''))) = CtlDeferSetStartErr \<and>
   stoppedChClosed (the (run abandoned_schedule (spawned_entry ''app1''))) \<and>
   \<not> started (the (run abandoned_schedule (spawned_entry ''app1''))) \<and>
   stopRequestCh (the (run abandoned_schedule (spawned_entry ''app1''))) = 1"
proof -
  obtain s where r: "run abandoned_schedule (spawned_entry ''app1'') = Some s"
    by (simp add: abandoned_schedule_def run_defs)
  have c: "closed (stoppedCh s)" and m: "managed s = CtlDeferSetStartErr"
    and p: "externalPending s = 0"
    using r by (auto simp add: abandoned_schedule_def run_defs)
  from stopped_after_requestStop [OF r c] r c m p show ?thesis
    by simp
qed

section \<open>Retried starts\<close>

text \<open>
  The \<open>select\<close> of \<open>startAndWaitForRunningServer\<close> (lines 499-506) on an entry. The
  argument \<open>ctxErr\<close> is \<open>ctx.Err()\<close> of the caller's context, \<open>None\<close> while the context
  is not done; \<open>quiesce\<close> says that \<open>c.stopper.ShouldQuiesce()\<close> is closed. The result is
  \<open>None\<close> when the chosen case cannot be taken.
\<close>

datatype ensure_case = EStartedOrStopped | EQuiesce | ECtxDone

fun startAndWait_select ::
  "ensure_case \<Rightarrow> error option \<Rightarrow> bool \<Rightarrow> orchestration
     \<Rightarrow> (srv option \<times> error option) option" where
  "startAndWait_select EStartedOrStopped ctxErr quiesce e =
     (if closed (startedOrStoppedCh e) then Some (server e, startErr e) else None)"
| "startAndWait_select EQuiesce ctxErr quiesce e =
     (if quiesce then Some (None, Some (New ''server stopping'')) else None)"
| "startAndWait_select ECtxDone ctxErr quiesce e =
     (case ctxErr of
        Some x \<Rightarrow> Some (None, Some (WithStack x))
      | None \<Rightarrow> None)"

text \<open>Server creation fails, \<open>preStart\<close> fails, the third attempt succeeds.\<close>

definition retry_schedule :: "action list" where
  "retry_schedule =
     [RetryNext True, SpawnPropagateCloseTenant True, TryCreate (NewServerFails (Opaque 1)),
      FailStop, FailRecord,
      RetryNext True, SpawnPropagateCloseTenant True, TryCreate (PreStartFails (Opaque 2)),
      FailStop, FailRecord,
      RetryNext True, SpawnPropagateCloseTenant True, TryCreate (Started 7),
      Publish, SetStarted, CloseStartedOrStopped]"

text \<open>
  Claim C3 on the code. After the first failed attempt (five steps) \<open>startErr\<close> is the
  error of the creation; after the second (ten steps) it is the error of \<open>preStart\<close>, so
  the first error was transient. After the successful third attempt the control loop is
  running (it waits for a shutdown request on the third stopper, \<open>started\<close> is true, the
  server is published, \<open>startedOrStopped\<close> is closed), but \<open>startErr\<close> still holds the
  error of the second attempt, because line 401 assigns it and the successful path
  (lines 404-426) never clears it. A waiter in \<open>startAndWaitForRunningServer\<close> gets the
  server together with that error.
\<close>

theorem retry_success_keeps_startErr:
  "map_option startErr (run (take 5 retry_schedule) (spawned_entry ''app1'')) =
     Some (Some (Wrap (Opaque 1) ''while creating server'')) \<and>
   map_option startErr (run (take 10 retry_schedule) (spawned_entry ''app1'')) =
     Some (Some (Wrap (Opaque 2) ''while starting server'')) \<and>
   map_option managed (run retry_schedule (spawned_entry ''app1'')) = Some CtlWait \<and>
   map_option tenantStoppers (run retry_schedule (spawned_entry ''app1'')) =
     Some [True, True, False] \<and>
   map_option started (run retry_schedule (spawned_entry ''app1'')) = Some True \<and>
   map_option server (run retry_schedule (spawned_entry ''app1'')) = Some (Some 7) \<and>
   map_option startedOrStoppedCh (run retry_schedule (spawned_entry ''app1'')) = Some 1 \<and>
   map_option startErr (run retry_schedule (spawned_entry ''app1'')) =
     Some (Some (Wrap (Opaque 2) ''while starting server'')) \<and>
   Option.bind (run retry_schedule (spawned_entry ''app1''))
       (startAndWait_select EStartedOrStopped None False) =
     Some (Some 7, Some (Wrap (Opaque 2) ''while starting server''))"
proof -
  have first: "run (take 5 retry_schedule) (spawned_entry ''app1'') =
      Some ((spawned_entry ''app1'')
        \<lparr> startErr := Some (Wrap (Opaque 1) ''while creating server''),
          err := Some (Wrap (Opaque 1) ''while creating server''),
          tenantStoppers := [True], ptTasks := [PtSpawned] \<rparr>)"
    by (simp add: retry_schedule_def run_defs)
  have second: "run (take 10 retry_schedule) (spawned_entry ''app1'') =
      Some ((spawned_entry ''app1'')
        \<lparr> startErr := Some (Wrap (Opaque 2) ''while starting server''),
          err := Some (Wrap (Opaque 2) ''while starting server''),
          tenantStoppers := [True, True], ptTasks := [PtSpawned, PtSpawned] \<rparr>)"
    by (simp add: retry_schedule_def run_defs)
  have third: "run retry_schedule (spawned_entry ''app1'') =
      Some ((spawned_entry ''app1'')
        \<lparr> server := Some 7,
          startErr := Some (Wrap (Opaque 2) ''while starting server''),
          started := True, startedOrStoppedCh := 1, managed := CtlWait,
          startedOrStoppedChAlreadyClosed := True, tenantServer := Some 7, err := None,
          tenantStoppers := [True, True, False],
          ptTasks := [PtSpawned, PtSpawned, PtSpawned] \<rparr>)"
    by (simp add: retry_schedule_def run_defs)
  show ?thesis
    unfolding first second third by (simp add: closed_def)
qed

text \<open>
  The same holds in every schedule: while the control loop handles a failed attempt the
  variable \<open>err\<close> is not nil, and once the error of an attempt has been recorded
  (line 401) no step of any task sets \<open>startErr\<close> back to nil.
\<close>

definition fail_inv :: "orchestration \<Rightarrow> bool" where
  "fail_inv s = (managed s = CtlFailStop \<or> managed s = CtlFailRecord \<longrightarrow> err s \<noteq> None)"

lemma wait_next_not_fail [simp]:
  "wait_next c \<noteq> CtlFailStop" "wait_next c \<noteq> CtlFailRecord"
  by (cases c; simp)+

lemma step_startErr_kept:
  "fail_inv s \<Longrightarrow> step a s = Some s' \<Longrightarrow>
     fail_inv s' \<and> (startErr s \<noteq> None \<or> a = FailRecord \<longrightarrow> startErr s' \<noteq> None)"
  by (cases a; clarsimp simp: fail_inv_def step_defs Let_def split: if_splits)

lemma run_startErr_kept:
  "fail_inv s \<Longrightarrow> run sched s = Some s' \<Longrightarrow>
     fail_inv s' \<and> (startErr s \<noteq> None \<or> FailRecord \<in> set sched \<longrightarrow> startErr s' \<noteq> None)"
proof (induction sched arbitrary: s)
  case Nil
  then show ?case by simp
next
  case (Cons a sched)
  from Cons.prems obtain t where st: "step a s = Some t" and rn: "run sched t = Some s'"
    by (auto split: option.splits)
  from step_startErr_kept [OF Cons.prems(1) st] Cons.IH [OF _ rn] show ?case
    by auto
qed

lemma failed_attempt_leaves_startErr:
  "run sched (spawned_entry name) = Some s \<Longrightarrow> FailRecord \<in> set sched \<Longrightarrow>
     startErr s \<noteq> None"
  using run_startErr_kept [of "spawned_entry name" sched s]
  by (simp add: fail_inv_def spawned_entry_def new_entry_def)

section \<open>When a graceful drain is attempted\<close>






section \<open>The server controller\<close>

text \<open>
  The registry \<open>c.mu.servers\<close> maps a tenant name to a \<open>*serverEntry\<close>. Entries are shared
  with the tasks of their control loops, so the model keeps them in a heap and the registry
  maps a name to an address. \<open>nextEntry\<close> is the address of the next entry allocated.
  \<open>stopperQuiesce\<close> says that \<open>c.stopper.ShouldQuiesce()\<close> is closed.
\<close>

record serverController =
  servers :: "tenant_name \<rightharpoonup> nat"
  draining :: bool
  stopperQuiesce :: bool
  heap :: "nat \<rightharpoonup> orchestration"
  nextEntry :: nat

text \<open>Calling \<open>e.state.requestStop()\<close> on the entry at an address.\<close>

definition requestStop_at :: "nat \<Rightarrow> serverController \<Rightarrow> serverController" where
  "requestStop_at a c =
     (case heap c a of
        Some e \<Rightarrow> c\<lparr> heap := (heap c)(a \<mapsto> requestStop e) \<rparr>
      | None \<Rightarrow> c)"

text \<open>
  \<open>startControlledServer\<close> (lines 200-446) as far as it runs in the caller: it builds the
  entry and starts the two tasks with \<open>c.stopper.RunAsyncTask\<close>. The stopper is not part of
  this file; the errors that its two calls return are the arguments \<open>spawn1\<close> and
  \<open>spawn2\<close>. When the first call fails no task has the entry and it is dropped
  (lines 272-278). When the second fails, \<open>propagate-close\<close> is running and the entry gets
  a \<open>requestStop\<close> (lines 439-443).
\<close>

definition startControlledServer ::
  "error option \<Rightarrow> error option \<Rightarrow> tenant_name \<Rightarrow> serverController
     \<Rightarrow> serverController \<times> (error + nat)" where
  "startControlledServer spawn1 spawn2 name c =
     (case spawn1 of
        Some e1 \<Rightarrow> (c, Inl e1)
      | None \<Rightarrow>
          (case spawn2 of
             Some e2 \<Rightarrow>
               (c\<lparr> heap := (heap c)(nextEntry c \<mapsto>
                       requestStop ((new_entry name)\<lparr> propagateClose := PropWait \<rparr>)),
                    nextEntry := Suc (nextEntry c) \<rparr>,
                Inl e2)
           | None \<Rightarrow>
               (c\<lparr> heap := (heap c)(nextEntry c \<mapsto> spawned_entry name),
                    nextEntry := Suc (nextEntry c) \<rparr>,
                Inr (nextEntry c))))"

text \<open>\<open>createServerEntryLocked\<close> (lines 184-196).\<close>

definition createServerEntryLocked ::
  "error option \<Rightarrow> error option \<Rightarrow> tenant_name \<Rightarrow> serverController
     \<Rightarrow> serverController \<times> (error + nat)" where
  "createServerEntryLocked spawn1 spawn2 name c =
     (if draining c then (c, Inl (New ''server is draining''))
      else (case startControlledServer spawn1 spawn2 name c of
              (c', Inl e) \<Rightarrow> (c', Inl e)
            | (c', Inr entry) \<Rightarrow>
                (c'\<lparr> servers := (servers c')(name \<mapsto> entry) \<rparr>, Inr entry)))"

text \<open>
  \<open>scanTenantsForRunnableServices\<close> (lines 143-182). \<open>req\<close> is what
  \<open>getExpectedRunningTenants\<close> returns. Go ranges over a map in an unspecified order:
  \<open>order\<close> is the order in which the first loop visits the keys of \<open>c.mu.servers\<close>. The
  function \<open>spawn\<close> gives, for a tenant name, the answers of the stopper to the two
  \<open>RunAsyncTask\<close> calls of \<open>startControlledServer\<close>.
\<close>

fun stop_unlisted ::
  "tenant_name list \<Rightarrow> tenant_name list \<Rightarrow> serverController \<Rightarrow> serverController" where
  "stop_unlisted reqTenants [] c = c"
| "stop_unlisted reqTenants (name # order) c =
     stop_unlisted reqTenants order
       (case servers c name of
          Some srv \<Rightarrow> if name \<in> set reqTenants then c else requestStop_at srv c
        | None \<Rightarrow> c)"

fun start_missing ::
  "(tenant_name \<Rightarrow> error option \<times> error option) \<Rightarrow> tenant_name list \<Rightarrow> serverController
     \<Rightarrow> serverController \<times> error option" where
  "start_missing spawn [] c = (c, None)"
| "start_missing spawn (name # reqTenants) c =
     (if servers c name = None
      then (case createServerEntryLocked (fst (spawn name)) (snd (spawn name)) name c of
              (c', Inl e) \<Rightarrow> (c', Some e)
            | (c', Inr entry) \<Rightarrow> start_missing spawn reqTenants c')
      else start_missing spawn reqTenants c)"

definition scanTenantsForRunnableServices ::
  "error + tenant_name list \<Rightarrow> tenant_name list
     \<Rightarrow> (tenant_name \<Rightarrow> error option \<times> error option) \<Rightarrow> serverController
     \<Rightarrow> serverController \<times> error option" where
  "scanTenantsForRunnableServices req order spawn c =
     (case req of
        Inl e \<Rightarrow> (c, Some e)
      | Inr reqTenants \<Rightarrow> start_missing spawn reqTenants (stop_unlisted reqTenants order c))"

text \<open>
  \<open>requestStopAll\<close> (lines 550-566): the snapshot of the entries under the lock, in the
  order \<open>order\<close> of the range over the map, then \<open>requestStop\<close> on each.
\<close>

definition requestStopAll ::
  "tenant_name list \<Rightarrow> serverController \<Rightarrow> serverController \<times> nat list" where
  "requestStopAll order c =
     (let entries = List.map_filter (servers c) order
      in (fold requestStop_at entries c, entries))"

text \<open>
  \<open>drain\<close> (lines 535-548): the \<open>select\<close> with a \<open>default\<close> case polls \<open>stopped\<close> of
  each entry of the snapshot and counts the ones that are not closed.
\<close>

definition entry_stopped :: "serverController \<Rightarrow> nat \<Rightarrow> bool" where
  "entry_stopped c a = (case heap c a of Some e \<Rightarrow> closed (stoppedCh e) | None \<Rightarrow> False)"

fun count_not_stopped :: "serverController \<Rightarrow> nat list \<Rightarrow> nat \<Rightarrow> nat" where
  "count_not_stopped c [] notStopped = notStopped"
| "count_not_stopped c (e # entries) notStopped =
     count_not_stopped c entries (if entry_stopped c e then notStopped else Suc notStopped)"

definition drain :: "tenant_name list \<Rightarrow> serverController \<Rightarrow> serverController \<times> nat" where
  "drain order c =
     (let (c', entries) = requestStopAll order c
      in (c', count_not_stopped c' entries 0))"

text \<open>
  \<open>startAndWaitForRunningServer\<close> (lines 484-507). The part under the lock
  (\<open>startAndWait_entry\<close>, lines 487-494) finds or creates the entry. If that fails the
  function has returned the error; otherwise it is waiting in its \<open>select\<close> on the
  entry. The \<open>select\<close> blocks, so it is evaluated in a later state of the controller:
  \<open>startAndWait_wait\<close> is \<open>None\<close> as long as the chosen case cannot be taken.
\<close>

datatype ensure_progress =
    EnsureReturned "srv option \<times> error option"
  | EnsureWaiting nat

definition startAndWait_entry ::
  "error option \<Rightarrow> error option \<Rightarrow> tenant_name \<Rightarrow> serverController
     \<Rightarrow> serverController \<times> (error + nat)" where
  "startAndWait_entry spawn1 spawn2 name c =
     (case servers c name of
        Some entry \<Rightarrow> (c, Inr entry)
      | None \<Rightarrow> createServerEntryLocked spawn1 spawn2 name c)"

definition startAndWaitForRunningServer ::
  "error option \<Rightarrow> error option \<Rightarrow> tenant_name \<Rightarrow> serverController
     \<Rightarrow> serverController \<times> ensure_progress" where
  "startAndWaitForRunningServer spawn1 spawn2 name c =
     (case startAndWait_entry spawn1 spawn2 name c of
        (c', Inl e) \<Rightarrow> (c', EnsureReturned (None, Some e))
      | (c', Inr entry) \<Rightarrow> (c', EnsureWaiting entry))"

definition startAndWait_wait ::
  "ensure_case \<Rightarrow> error option \<Rightarrow> nat \<Rightarrow> serverController
     \<Rightarrow> (srv option \<times> error option) option" where
  "startAndWait_wait choice ctxErr entry c =
     (case heap c entry of
        Some e \<Rightarrow> startAndWait_select choice ctxErr (stopperQuiesce c) e
      | None \<Rightarrow> None)"

text \<open>A controller with no entry.\<close>

definition empty_controller :: serverController where
  "empty_controller =
     \<lparr> servers = Map.empty, draining = False, stopperQuiesce = False, heap = Map.empty,
       nextEntry = 0 \<rparr>"

section \<open>Creating an entry while draining\<close>

lemma start_missing_draining:
  "draining c \<Longrightarrow>
     start_missing spawn reqTenants c =
       (c, if \<exists>name \<in> set reqTenants. servers c name = None
           then Some (New ''server is draining'') else None)"
  by (induction reqTenants) (simp_all add: createServerEntryLocked_def)

text \<open>
  Claim C8. When the draining flag is set, \<open>createServerEntryLocked\<close> returns the error
  "server is draining" and the controller is unchanged: the registry map is the same, and
  no entry has been allocated and no task started, since the heap is the same. There is
  no retry: the function returns at once, without calling \<open>startControlledServer\<close>,
  whatever the stopper would have answered. Its two callers pass the error on:
  \<open>startAndWaitForRunningServer\<close> for a tenant without an entry returns it without
  waiting, and the second loop of \<open>scanTenantsForRunnableServices\<close> returns it at the
  first desired tenant without an entry, both leaving the controller unchanged.
\<close>

theorem createServerEntryLocked_draining:
  assumes "draining c"
  shows "createServerEntryLocked spawn1 spawn2 name c = (c, Inl (New ''server is draining'')) \<and>
         (servers c name = None \<longrightarrow>
            startAndWaitForRunningServer spawn1 spawn2 name c =
              (c, EnsureReturned (None, Some (New ''server is draining'')))) \<and>
         fst (start_missing spawn reqTenants c) = c \<and>
         ((\<exists>n \<in> set reqTenants. servers c n = None) \<longrightarrow>
            snd (start_missing spawn reqTenants c) = Some (New ''server is draining''))"
proof -
  from assms have
    c: "createServerEntryLocked spawn1 spawn2 name c = (c, Inl (New ''server is draining''))"
    by (simp add: createServerEntryLocked_def)
  then have "servers c name = None \<longrightarrow>
      startAndWaitForRunningServer spawn1 spawn2 name c =
        (c, EnsureReturned (None, Some (New ''server is draining'')))"
    by (simp add: startAndWaitForRunningServer_def startAndWait_entry_def)
  with c start_missing_draining [OF assms, of spawn reqTenants] show ?thesis
    by simp
qed

theorem createServerEntryLocked_draining_witness:
  "draining (empty_controller\<lparr> draining := True \<rparr>) \<and>
   servers (empty_controller\<lparr> draining := True \<rparr>) ''app1'' = None \<and>
   createServerEntryLocked None None ''app1'' (empty_controller\<lparr> draining := True \<rparr>) =
     (empty_controller\<lparr> draining := True \<rparr>, Inl (New ''server is draining'')) \<and>
   startAndWaitForRunningServer None None ''app1'' (empty_controller\<lparr> draining := True \<rparr>) =
     (empty_controller\<lparr> draining := True \<rparr>,
      EnsureReturned (None, Some (New ''server is draining''))) \<and>
   start_missing (\<lambda>n. (None, None)) [''app1''] (empty_controller\<lparr> draining := True \<rparr>) =
     (empty_controller\<lparr> draining := True \<rparr>, Some (New ''server is draining''))"
proof -
  have d: "draining (empty_controller\<lparr> draining := True \<rparr>)"
    by simp
  have s: "servers (empty_controller\<lparr> draining := True \<rparr>) ''app1'' = None"
    by (simp add: empty_controller_def)
  from createServerEntryLocked_draining
    [OF d, of None None "''app1''" "\<lambda>n. (None, None)" "[''app1'']"] d s
  show ?thesis
    by (simp add: prod_eq_iff)
qed

section \<open>Waiting for a running server\<close>

text \<open>
  Claim C7 as stated fails when the entry has to be created and cannot be: on a
  draining controller with no entry for the tenant, \<open>startAndWaitForRunningServer\<close>
  returns "server is draining" from the part under the lock (lines 495-497), without
  waiting for any of the three signals.
\<close>

theorem startAndWait_returns_without_waiting:
  "startAndWaitForRunningServer None None ''app1'' (empty_controller\<lparr> draining := True \<rparr>) =
     (empty_controller\<lparr> draining := True \<rparr>,
      EnsureReturned (None, Some (New ''server is draining'')))"
  by (simp add: startAndWaitForRunningServer_def startAndWait_entry_def
      createServerEntryLocked_def empty_controller_def)

text \<open>
  Claim C7, amended. If the entry has to be created and \<open>createServerEntryLocked\<close>
  fails, \<open>startAndWaitForRunningServer\<close> returns that error at once. Otherwise it has
  the entry, registered under the tenant's name, and blocks in its \<open>select\<close>, which is
  evaluated in a later state \<open>c2\<close> of the controller where the control loop has brought
  the entry to a state \<open>e\<close>: as long as \<open>startedOrStopped\<close> is open, the outer stopper
  does not quiesce and the caller's context is not done, no case can be taken; the case of
  \<open>startedOrStopped\<close> can be taken only when that channel is closed and returns the
  entry's server with its \<open>startErr\<close>, which is the error "server stop before successful
  start" when there is no server; the case of the quiesce can be taken only when the
  stopper quiesces and returns "server stopping"; the case of the context only when the
  context is done and returns its error.
\<close>

theorem startAndWait_blocks_until_signal:
  assumes "startAndWaitForRunningServer spawn1 spawn2 name c = (c', r)"
    and "heap c2 entry = Some e"
    and "run sched (spawned_entry name) = Some e"
  shows "(case r of
            EnsureReturned res \<Rightarrow>
              servers c name = None \<and>
              (\<exists>x. res = (None, Some x) \<and>
                   createServerEntryLocked spawn1 spawn2 name c = (c', Inl x))
          | EnsureWaiting a \<Rightarrow> servers c' name = Some a) \<and>
         (\<not> closed (startedOrStoppedCh e) \<and> \<not> stopperQuiesce c2 \<and> ctxErr = None \<longrightarrow>
            (\<forall>choice. startAndWait_wait choice ctxErr entry c2 = None)) \<and>
         startAndWait_wait EStartedOrStopped ctxErr entry c2 =
           (if closed (startedOrStoppedCh e) then Some (server e, startErr e) else None) \<and>
         (closed (startedOrStoppedCh e) \<and> server e = None \<longrightarrow>
            startErr e = Some (New ''server stop before successful start'')) \<and>
         startAndWait_wait EQuiesce ctxErr entry c2 =
           (if stopperQuiesce c2 then Some (None, Some (New ''server stopping'')) else None) \<and>
         startAndWait_wait ECtxDone ctxErr entry c2 =
           (if ctxErr = None then None else Some (None, Some (WithStack (the ctxErr))))"
proof -
  have "case r of
          EnsureReturned res \<Rightarrow>
            servers c name = None \<and>
            (\<exists>x. res = (None, Some x) \<and>
                 createServerEntryLocked spawn1 spawn2 name c = (c', Inl x))
        | EnsureWaiting a \<Rightarrow> servers c' name = Some a"
    using assms(1)
    by (auto simp: startAndWaitForRunningServer_def startAndWait_entry_def
        createServerEntryLocked_def startControlledServer_def
        split: option.splits if_splits sum.splits prod.splits)
  moreover have "\<And>choice.
      \<not> closed (startedOrStoppedCh e) \<Longrightarrow> \<not> stopperQuiesce c2 \<Longrightarrow> ctxErr = None \<Longrightarrow>
      startAndWait_wait choice ctxErr entry c2 = None"
    using assms(2) by (case_tac choice) (simp_all add: startAndWait_wait_def)
  moreover have "closed (startedOrStoppedCh e) \<and> server e = None \<longrightarrow>
      startErr e = Some (New ''server stop before successful start'')"
    using ctl_inv_channels [OF run_ctl_inv [OF assms(3)]] by blast
  ultimately show ?thesis
    using assms(2) by (auto simp: startAndWait_wait_def)
qed

text \<open>
  A tenant is registered, its control loop starts the server, and the waiter takes the
  case of \<open>startedOrStopped\<close>.
\<close>

definition started_controller :: serverController where
  "started_controller =
     (fst (startAndWaitForRunningServer None None ''app1'' empty_controller))
       \<lparr> heap := [0 \<mapsto> the (run [RetryNext True, SpawnPropagateCloseTenant True,
                                 TryCreate (Started 7), Publish, SetStarted,
                                 CloseStartedOrStopped] (spawned_entry ''app1''))] \<rparr>"

theorem startAndWait_blocks_until_signal_witness:
  "startAndWaitForRunningServer None None ''app1'' empty_controller =
     (empty_controller\<lparr> heap := [0 \<mapsto> spawned_entry ''app1''], nextEntry := 1,
                         servers := [''app1'' \<mapsto> 0] \<rparr>, EnsureWaiting 0) \<and>
   servers (fst (startAndWaitForRunningServer None None ''app1'' empty_controller)) ''app1'' =
     Some 0 \<and>
   startAndWait_wait EStartedOrStopped None 0 started_controller = Some (Some 7, None) \<and>
   startAndWait_wait EQuiesce None 0 started_controller = None \<and>
   startAndWait_wait ECtxDone None 0 started_controller = None"
proof -
  have r: "startAndWaitForRunningServer None None ''app1'' empty_controller =
     (empty_controller\<lparr> heap := [0 \<mapsto> spawned_entry ''app1''], nextEntry := 1,
                         servers := [''app1'' \<mapsto> 0] \<rparr>, EnsureWaiting 0)"
    by (simp add: startAndWaitForRunningServer_def startAndWait_entry_def
        createServerEntryLocked_def startControlledServer_def empty_controller_def)
  obtain e where e: "run [RetryNext True, SpawnPropagateCloseTenant True,
      TryCreate (Started 7), Publish, SetStarted, CloseStartedOrStopped]
      (spawned_entry ''app1'') = Some e"
    by (simp add: run_defs)
  have h: "heap started_controller 0 = Some e"
    unfolding started_controller_def e by simp
  have q: "\<not> stopperQuiesce started_controller"
    unfolding started_controller_def r by (simp add: empty_controller_def)
  have f: "closed (startedOrStoppedCh e) \<and> server e = Some 7 \<and> startErr e = None"
    using e by (auto simp add: run_defs)
  from startAndWait_blocks_until_signal [OF r h e, of None] q f r
  show ?thesis
    by simp
qed

section \<open>Requesting stops through the registry\<close>

text \<open>
  A registry as the controller keeps it: different names have different entries, and every
  registered entry has been allocated. \<open>range_order\<close> says that a list is an order in
  which Go may range over the keys of the registry: every key once.
\<close>

definition registry_ok :: "serverController \<Rightarrow> bool" where
  "registry_ok c =
     (inj_on (servers c) (dom (servers c)) \<and>
      (\<forall>name a. servers c name = Some a \<longrightarrow> a < nextEntry c \<and> heap c a \<noteq> None))"

definition range_order :: "tenant_name list \<Rightarrow> serverController \<Rightarrow> bool" where
  "range_order order c = (distinct order \<and> set order = dom (servers c))"

lemma requestStop_at_fields [simp]:
  "servers (requestStop_at a c) = servers c"
  "draining (requestStop_at a c) = draining c"
  "nextEntry (requestStop_at a c) = nextEntry c"
  "stopperQuiesce (requestStop_at a c) = stopperQuiesce c"
  by (simp_all add: requestStop_at_def split: option.splits)

lemma requestStop_at_heap:
  "heap (requestStop_at a c) b = (if b = a then map_option requestStop (heap c a) else heap c b)"
  by (simp add: requestStop_at_def split: option.splits)

lemma requestStop_stoppedCh [simp]: "stoppedCh (requestStop e) = stoppedCh e"
  by (simp add: requestStop_def requestStop_swap_def requestStop_close_def)

lemma requestStop_flag [simp]: "stoppedChClosed (requestStop e)"
  by (simp add: requestStop_def requestStop_swap_def requestStop_close_def)

lemma requestStop_calls [simp]: "requestStopCalls (requestStop e) = Suc (requestStopCalls e)"
  by (simp add: requestStop_def requestStop_swap_def requestStop_close_def)

lemma fold_requestStop_at_fields [simp]:
  "servers (fold requestStop_at es c) = servers c"
  "draining (fold requestStop_at es c) = draining c"
  "nextEntry (fold requestStop_at es c) = nextEntry c"
  by (induction es arbitrary: c; simp)+

lemma fold_requestStop_at_heap:
  "distinct es \<Longrightarrow>
     heap (fold requestStop_at es c) a =
       (if a \<in> set es then map_option requestStop (heap c a) else heap c a)"
proof (induction es arbitrary: c)
  case Nil
  then show ?case by simp
next
  case (Cons b es)
  then show ?case
    by (auto simp: requestStop_at_heap)
qed

lemma count_not_stopped_filter:
  "count_not_stopped c es n = n + length (filter (\<lambda>a. \<not> entry_stopped c a) es)"
  by (induction es arbitrary: n) simp_all

lemma snapshot_map:
  "set order \<subseteq> dom (servers c) \<Longrightarrow>
     List.map_filter (servers c) order = map (\<lambda>name. the (servers c name)) order"
  by (induction order) auto

lemma snapshot_distinct:
  assumes "range_order order c" and "registry_ok c"
  shows "distinct (map (\<lambda>name. the (servers c name)) order)"
proof -
  from assms have "inj_on (\<lambda>name. the (servers c name)) (set order)"
    by (auto simp: range_order_def registry_ok_def inj_on_def dom_def)
  with assms(1) show ?thesis
    by (simp add: distinct_map range_order_def)
qed

text \<open>
  Claim C9. \<open>drain\<close> is a function of the state: it has a result whatever the state of
  the \<open>stopped\<close> channels, since its poll has a \<open>default\<close> case. For a registry \<open>c\<close> and
  any order of the range over it
  \<^item> the registry map is unchanged;
  \<^item> every entry in the registry has had exactly one more \<open>requestStop\<close>, so its flag
    \<open>stoppedChClosed\<close> is set;
  \<^item> the result is the number of registered names whose entry has \<open>stopped\<close> not closed at
    the poll; \<open>requestStop\<close> does not touch \<open>stopped\<close>, so this is the same number before
    and after the stops are requested.
\<close>

theorem drain_counts_not_stopped:
  assumes "range_order order c" and "registry_ok c"
  shows "servers (fst (drain order c)) = servers c \<and>
         (\<forall>name a. servers c name = Some a \<longrightarrow>
            heap (fst (drain order c)) a = map_option requestStop (heap c a) \<and>
            (\<exists>e. heap (fst (drain order c)) a = Some e \<and> stoppedChClosed e)) \<and>
         snd (drain order c) =
           card {name \<in> dom (servers c).
                   \<not> entry_stopped (fst (drain order c)) (the (servers c name))} \<and>
         snd (drain order c) =
           card {name \<in> dom (servers c). \<not> entry_stopped c (the (servers c name))}"
proof -
  let ?es = "map (\<lambda>name. the (servers c name)) order"
  let ?c' = "fold requestStop_at ?es c"
  from assms(1) have sub: "set order \<subseteq> dom (servers c)"
    by (simp add: range_order_def)
  have d: "drain order c = (?c', count_not_stopped ?c' ?es 0)"
    by (simp add: drain_def requestStopAll_def snapshot_map [OF sub] Let_def)
  have dist: "distinct ?es"
    using assms by (rule snapshot_distinct)
  have hp: "\<And>a. heap ?c' a = (if a \<in> set ?es then map_option requestStop (heap c a) else heap c a)"
    using dist by (rule fold_requestStop_at_heap)
  have st: "\<And>a. entry_stopped ?c' a = entry_stopped c a"
    by (auto simp: entry_stopped_def hp split: option.splits)
  have reg: "\<And>name a. servers c name = Some a \<Longrightarrow>
      heap ?c' a = map_option requestStop (heap c a) \<and> (\<exists>e. heap ?c' a = Some e \<and> stoppedChClosed e)"
  proof -
    fix name a
    assume s: "servers c name = Some a"
    with assms(1) have "name \<in> set order"
      by (auto simp: range_order_def)
    with s have "a \<in> set ?es"
      by force
    moreover from s assms(2) obtain e where "heap c a = Some e"
      by (auto simp: registry_ok_def)
    ultimately show "heap ?c' a = map_option requestStop (heap c a) \<and>
        (\<exists>e. heap ?c' a = Some e \<and> stoppedChClosed e)"
      by (simp add: hp)
  qed
  have "count_not_stopped ?c' ?es 0 =
      length (filter (\<lambda>name. \<not> entry_stopped c (the (servers c name))) order)"
    by (simp add: count_not_stopped_filter st filter_map comp_def)
  also have "\<dots> = card {name \<in> set order. \<not> entry_stopped c (the (servers c name))}"
    using assms(1) by (simp add: range_order_def distinct_length_filter Int_def conj_commute)
  also have "\<dots> = card {name \<in> dom (servers c). \<not> entry_stopped c (the (servers c name))}"
    using assms(1) by (simp add: range_order_def)
  finally have n: "count_not_stopped ?c' ?es 0 =
      card {name \<in> dom (servers c). \<not> entry_stopped c (the (servers c name))}" .
  have A: "servers ?c' = servers c"
    by simp
  have B: "\<forall>name a. servers c name = Some a \<longrightarrow>
      heap ?c' a = map_option requestStop (heap c a) \<and>
      (\<exists>e. heap ?c' a = Some e \<and> stoppedChClosed e)"
    using reg by blast
  have C: "count_not_stopped ?c' ?es 0 =
      card {name \<in> dom (servers c). \<not> entry_stopped ?c' (the (servers c name))}"
    using n by (simp only: st)
  show ?thesis
    unfolding d fst_conv snd_conv using A B C n by blast
qed

text \<open>
  A registry with two entries: the control loop of \<open>a\<close> has finished its cleanup, the one
  of \<open>c\<close> has not started yet.
\<close>

definition two_tenants :: serverController where
  "two_tenants =
     \<lparr> servers = [''a'' \<mapsto> 0, ''c'' \<mapsto> 1], draining = False, stopperQuiesce = False,
       heap = [0 \<mapsto> (spawned_entry ''a'')\<lparr> stoppedChClosed := True, requestStopCalls := 1,
                       stopRequestCh := 1, stoppedCh := 1, startedOrStoppedCh := 1,
                       startErr := Some (New ''server stop before successful start''),
                       managed := CtlDeferDelete \<rparr>,
               1 \<mapsto> spawned_entry ''c''],
       nextEntry = 2 \<rparr>"

lemma two_tenants_ok: "registry_ok two_tenants"
  by (auto simp: registry_ok_def two_tenants_def inj_on_def dom_def split: if_splits)

lemma two_tenants_order: "range_order [''c'', ''a''] two_tenants"
  by (auto simp: range_order_def two_tenants_def)

theorem drain_counts_not_stopped_witness:
  "range_order [''c'', ''a''] two_tenants \<and> registry_ok two_tenants \<and>
   snd (drain [''c'', ''a''] two_tenants) = 1 \<and>
   servers (fst (drain [''c'', ''a''] two_tenants)) = servers two_tenants \<and>
   heap (fst (drain [''c'', ''a''] two_tenants)) 1 = Some (requestStop (spawned_entry ''c''))"
proof -
  have n: "snd (drain [''c'', ''a''] two_tenants) = 1"
    by (simp add: drain_def requestStopAll_def two_tenants_def Let_def
        requestStop_at_def entry_stopped_def closed_def spawned_entry_def new_entry_def
        requestStop_def requestStop_swap_def requestStop_close_def)
  have s: "servers two_tenants ''c'' = Some 1" and h: "heap two_tenants 1 = Some (spawned_entry ''c'')"
    by (simp_all add: two_tenants_def)
  from drain_counts_not_stopped [OF two_tenants_order two_tenants_ok] s h n
    two_tenants_order two_tenants_ok
  show ?thesis
    by simp
qed

section \<open>One pass of \<open>scanTenantsForRunnableServices\<close>\<close>

lemma stop_unlisted_fields [simp]:
  "servers (stop_unlisted D order c) = servers c"
  "draining (stop_unlisted D order c) = draining c"
  "nextEntry (stop_unlisted D order c) = nextEntry c"
  by (induction order arbitrary: c; simp split: option.splits)+

lemma stop_unlisted_heap:
  assumes "distinct order" and "inj_on (servers c) (dom (servers c))"
  shows "heap (stop_unlisted D order c) a =
           (if \<exists>name \<in> set order. name \<notin> set D \<and> servers c name = Some a
            then map_option requestStop (heap c a) else heap c a)"
  using assms
proof (induction order arbitrary: c)
  case Nil
  then show ?case by simp
next
  case (Cons name order)
  define c1 where "c1 =
    (case servers c name of
       Some srv \<Rightarrow> if name \<in> set D then c else requestStop_at srv c
     | None \<Rightarrow> c)"
  have s1: "servers c1 = servers c"
    by (simp add: c1_def split: option.splits)
  have h1: "heap c1 a =
      (if name \<notin> set D \<and> servers c name = Some a then map_option requestStop (heap c a)
       else heap c a)"
    by (auto simp: c1_def requestStop_at_heap split: option.splits)
  from Cons.prems have d: "distinct order" and nin: "name \<notin> set order"
    by simp_all
  from Cons.prems(2) have inj1: "inj_on (servers c1) (dom (servers c1))"
    by (simp add: s1)
  have other: "\<And>n. n \<in> set order \<Longrightarrow> servers c n = Some a \<Longrightarrow> servers c name \<noteq> Some a"
  proof
    fix n
    assume "n \<in> set order" "servers c n = Some a" "servers c name = Some a"
    with Cons.prems(2) have "n = name"
      by (auto simp: inj_on_def dom_def)
    with \<open>n \<in> set order\<close> nin show False
      by simp
  qed
  have "heap (stop_unlisted D (name # order) c) a = heap (stop_unlisted D order c1) a"
    by (simp add: c1_def)
  also have "\<dots> =
      (if \<exists>n \<in> set order. n \<notin> set D \<and> servers c n = Some a
       then map_option requestStop (heap c1 a) else heap c1 a)"
    using Cons.IH [OF d inj1] by (simp add: s1)
  also have "\<dots> =
      (if \<exists>n \<in> set (name # order). n \<notin> set D \<and> servers c n = Some a
       then map_option requestStop (heap c a) else heap c a)"
    using other by (auto simp: h1)
  finally show ?case .
qed

lemma createServerEntryLocked_ok:
  "\<not> draining c \<Longrightarrow>
     createServerEntryLocked None None name c =
       (c\<lparr> heap := (heap c)(nextEntry c \<mapsto> spawned_entry name),
            nextEntry := Suc (nextEntry c),
            servers := (servers c)(name \<mapsto> nextEntry c) \<rparr>,
        Inr (nextEntry c))"
  by (simp add: createServerEntryLocked_def startControlledServer_def)

lemma createServerEntryLocked_frame:
  assumes "createServerEntryLocked spawn1 spawn2 name c = (c', r)" and "servers c name = None"
  shows "nextEntry c \<le> nextEntry c' \<and>
         (\<forall>a. a < nextEntry c \<longrightarrow> heap c' a = heap c a) \<and>
         (\<forall>n. servers c n \<noteq> None \<longrightarrow> servers c' n = servers c n)"
  using assms
  by (auto simp: createServerEntryLocked_def startControlledServer_def
      split: if_splits option.splits)

lemma start_missing_frame:
  "start_missing spawn D c = (c', r) \<Longrightarrow>
     nextEntry c \<le> nextEntry c' \<and>
     (\<forall>a. a < nextEntry c \<longrightarrow> heap c' a = heap c a) \<and>
     (\<forall>n. servers c n \<noteq> None \<longrightarrow> servers c' n = servers c n)"
proof (induction D arbitrary: c)
  case Nil
  then show ?case by simp
next
  case (Cons name D)
  show ?case
  proof (cases "servers c name = None")
    case False
    with Cons.prems have "start_missing spawn D c = (c', r)"
      by auto
    then show ?thesis
      by (rule Cons.IH)
  next
    case True
    obtain c1 r1 where
      cr: "createServerEntryLocked (fst (spawn name)) (snd (spawn name)) name c = (c1, r1)"
      by (cases "createServerEntryLocked (fst (spawn name)) (snd (spawn name)) name c")
    note f = createServerEntryLocked_frame [OF cr True]
    show ?thesis
    proof (cases r1)
      case (Inl e)
      with Cons.prems True cr have "c' = c1"
        by simp
      with f show ?thesis
        by simp
    next
      case (Inr entry)
      with Cons.prems True cr have "start_missing spawn D c1 = (c', r)"
        by simp
      from Cons.IH [OF this] f show ?thesis
        by (auto simp: le_trans)
    qed
  qed
qed

lemma start_missing_ok:
  assumes "\<not> draining c" and "\<forall>n \<in> set D. spawn n = (None, None)"
  shows "\<exists>c'. start_missing spawn D c = (c', None) \<and>
           nextEntry c \<le> nextEntry c' \<and>
           (\<forall>a. a < nextEntry c \<longrightarrow> heap c' a = heap c a) \<and>
           (\<forall>n. servers c n \<noteq> None \<longrightarrow> servers c' n = servers c n) \<and>
           (\<forall>n. servers c n = None \<longrightarrow>
              (if n \<in> set D
               then \<exists>a. servers c' n = Some a \<and> nextEntry c \<le> a \<and> a < nextEntry c' \<and>
                        heap c' a = Some (spawned_entry n)
               else servers c' n = None))"
  using assms
proof (induction D arbitrary: c)
  case Nil
  then show ?case by simp
next
  case (Cons name D)
  from Cons.prems have sp: "spawn name = (None, None)" and rest: "\<forall>n \<in> set D. spawn n = (None, None)"
    by simp_all
  show ?case
  proof (cases "servers c name = None")
    case False
    from Cons.IH [OF Cons.prems(1) rest] obtain c' where
      r: "start_missing spawn D c = (c', None)" and
      n: "nextEntry c \<le> nextEntry c'" and
      h: "\<forall>a. a < nextEntry c \<longrightarrow> heap c' a = heap c a" and
      k: "\<forall>n. servers c n \<noteq> None \<longrightarrow> servers c' n = servers c n" and
      m: "\<forall>n. servers c n = None \<longrightarrow>
              (if n \<in> set D
               then \<exists>a. servers c' n = Some a \<and> nextEntry c \<le> a \<and> a < nextEntry c' \<and>
                        heap c' a = Some (spawned_entry n)
               else servers c' n = None)"
      by blast
    have "start_missing spawn (name # D) c = (c', None)"
      using False r by auto
    moreover have "\<forall>n. servers c n = None \<longrightarrow>
              (if n \<in> set (name # D)
               then \<exists>a. servers c' n = Some a \<and> nextEntry c \<le> a \<and> a < nextEntry c' \<and>
                        heap c' a = Some (spawned_entry n)
               else servers c' n = None)"
      using m False by auto
    ultimately show ?thesis
      using n h k by blast
  next
    case True
    define c1 where "c1 = c\<lparr> heap := (heap c)(nextEntry c \<mapsto> spawned_entry name),
            nextEntry := Suc (nextEntry c),
            servers := (servers c)(name \<mapsto> nextEntry c) \<rparr>"
    have d1: "\<not> draining c1"
      using Cons.prems(1) by (simp add: c1_def)
    from Cons.IH [OF d1 rest] obtain c' where
      r: "start_missing spawn D c1 = (c', None)" and
      n: "nextEntry c1 \<le> nextEntry c'" and
      h: "\<forall>a. a < nextEntry c1 \<longrightarrow> heap c' a = heap c1 a" and
      k: "\<forall>n. servers c1 n \<noteq> None \<longrightarrow> servers c' n = servers c1 n" and
      m: "\<forall>n. servers c1 n = None \<longrightarrow>
              (if n \<in> set D
               then \<exists>a. servers c' n = Some a \<and> nextEntry c1 \<le> a \<and> a < nextEntry c' \<and>
                        heap c' a = Some (spawned_entry n)
               else servers c' n = None)"
      by blast
    have "start_missing spawn (name # D) c = (c', None)"
      using True r sp createServerEntryLocked_ok [OF Cons.prems(1), of name]
      by (simp add: c1_def)
    moreover have "nextEntry c \<le> nextEntry c'"
      using n by (simp add: c1_def)
    moreover have "\<forall>a. a < nextEntry c \<longrightarrow> heap c' a = heap c a"
      using h by (simp add: c1_def)
    moreover have "\<forall>n. servers c n \<noteq> None \<longrightarrow> servers c' n = servers c n"
      using k True by (auto simp: c1_def)
    moreover have "\<forall>n. servers c n = None \<longrightarrow>
              (if n \<in> set (name # D)
               then \<exists>a. servers c' n = Some a \<and> nextEntry c \<le> a \<and> a < nextEntry c' \<and>
                        heap c' a = Some (spawned_entry n)
               else servers c' n = None)"
    proof (intro allI impI)
      fix n
      assume absent: "servers c n = None"
      show "if n \<in> set (name # D)
               then \<exists>a. servers c' n = Some a \<and> nextEntry c \<le> a \<and> a < nextEntry c' \<and>
                        heap c' a = Some (spawned_entry n)
               else servers c' n = None"
      proof (cases "n = name")
        case True
        have "servers c' name = Some (nextEntry c)"
          using k by (simp add: c1_def)
        moreover have "heap c' (nextEntry c) = Some (spawned_entry name)"
          using h by (simp add: c1_def)
        moreover have "nextEntry c < nextEntry c'"
          using n by (simp add: c1_def)
        ultimately show ?thesis
          using True by auto
      next
        case False
        with absent have "servers c1 n = None"
          by (simp add: c1_def)
        with m have "if n \<in> set D
               then \<exists>a. servers c' n = Some a \<and> nextEntry c1 \<le> a \<and> a < nextEntry c' \<and>
                        heap c' a = Some (spawned_entry n)
               else servers c' n = None"
          by blast
        with False show ?thesis
          by (auto simp: c1_def)
      qed
    qed
    ultimately show ?thesis
      by blast
  qed
qed

text \<open>
  The scenario of the specification: the registry holds \<open>a\<close> and \<open>c\<close>, the desired set is
  \<open>a\<close> and \<open>b\<close>.
\<close>

definition all_spawn :: "tenant_name \<Rightarrow> error option \<times> error option" where
  "all_spawn name = (None, None)"

text \<open>
  Claim C4 as stated fails when an entry cannot be created: with the draining flag set
  (it is read again in \<open>createServerEntryLocked\<close>), the pass requests the stop of \<open>c\<close>,
  returns the error "server is draining" at the first missing name, and \<open>b\<close> has no
  entry.
\<close>

theorem scan_draining_creates_nothing:
  "snd (scanTenantsForRunnableServices (Inr [''a'', ''b'']) [''c'', ''a''] all_spawn
          (two_tenants\<lparr> draining := True \<rparr>)) = Some (New ''server is draining'') \<and>
   servers (fst (scanTenantsForRunnableServices (Inr [''a'', ''b'']) [''c'', ''a''] all_spawn
          (two_tenants\<lparr> draining := True \<rparr>))) ''b'' = None"
  by (simp add: scanTenantsForRunnableServices_def two_tenants_def requestStop_at_def
      createServerEntryLocked_def)

text \<open>
  Claim C4, amended. Let \<open>D\<close> be the desired tenants and \<open>R\<close> the names in the registry.
  After one pass, whatever its result,
  \<^item> every name of \<open>R\<close> keeps its entry; for a name of \<open>R\<close> in \<open>D\<close> the entry is untouched,
    for a name of \<open>R\<close> not in \<open>D\<close> the entry has had exactly one \<open>requestStop\<close>.

  If moreover the controller is not draining and the two tasks of every new entry can be
  spawned, the pass returns no error and
  \<^item> every name of \<open>D\<close> not in \<open>R\<close> has a new entry, at an address allocated in the pass,
    with its control loop and its \<open>propagate-close\<close> task spawned;
  \<^item> a name in neither \<open>D\<close> nor \<open>R\<close> has no entry.
\<close>

theorem scan_reconciles:
  assumes "range_order order c" and "registry_ok c"
    and "scanTenantsForRunnableServices (Inr D) order spawn c = (c', r)"
  shows "(\<forall>name a. servers c name = Some a \<longrightarrow>
            servers c' name = Some a \<and>
            heap c' a = (if name \<in> set D then heap c a
                         else map_option requestStop (heap c a))) \<and>
         (\<not> draining c \<and> (\<forall>name \<in> set D. spawn name = (None, None)) \<longrightarrow>
            r = None \<and>
            (\<forall>name. servers c name = None \<longrightarrow>
               (if name \<in> set D
                then \<exists>a. servers c' name = Some a \<and> nextEntry c \<le> a \<and>
                         heap c' a = Some (spawned_entry name)
                else servers c' name = None)))"
proof -
  let ?c1 = "stop_unlisted D order c"
  from assms(1,2) have dist: "distinct order" and ord: "set order = dom (servers c)"
    and inj: "inj_on (servers c) (dom (servers c))"
    by (simp_all add: range_order_def registry_ok_def)
  from assms(3) have sm: "start_missing spawn D ?c1 = (c', r)"
    by (simp add: scanTenantsForRunnableServices_def)
  from start_missing_frame [OF sm]
  have h: "\<forall>a. a < nextEntry c \<longrightarrow> heap c' a = heap ?c1 a"
    and k: "\<forall>n. servers c n \<noteq> None \<longrightarrow> servers c' n = servers c n"
    by simp_all
  have stops: "\<forall>name a. servers c name = Some a \<longrightarrow>
      servers c' name = Some a \<and>
      heap c' a = (if name \<in> set D then heap c a else map_option requestStop (heap c a))"
  proof (intro allI impI)
    fix name a
    assume s: "servers c name = Some a"
    with assms(2) have lt: "a < nextEntry c"
      by (auto simp: registry_ok_def)
    from s ord have mem: "name \<in> set order"
      by auto
    have uniq: "\<And>n. servers c n = Some a \<Longrightarrow> n = name"
      using inj s by (auto simp: inj_on_def dom_def)
    have "(\<exists>n \<in> set order. n \<notin> set D \<and> servers c n = Some a) = (name \<notin> set D)"
      using mem s uniq by blast
    with stop_unlisted_heap [OF dist inj, of D a]
    have "heap ?c1 a = (if name \<in> set D then heap c a else map_option requestStop (heap c a))"
      by simp
    with h lt k s show "servers c' name = Some a \<and>
      heap c' a = (if name \<in> set D then heap c a else map_option requestStop (heap c a))"
      by simp
  qed
  have starts: "r = None \<and>
      (\<forall>name. servers c name = None \<longrightarrow>
         (if name \<in> set D
          then \<exists>a. servers c' name = Some a \<and> nextEntry c \<le> a \<and>
                   heap c' a = Some (spawned_entry name)
          else servers c' name = None))"
    if nd: "\<not> draining c" and sp: "\<forall>name \<in> set D. spawn name = (None, None)"
  proof -
    have d1: "\<not> draining ?c1"
      using nd by simp
    from start_missing_ok [OF d1 sp]
    have "\<exists>c''. start_missing spawn D ?c1 = (c'', None) \<and>
           nextEntry c \<le> nextEntry c'' \<and>
           (\<forall>a. a < nextEntry c \<longrightarrow> heap c'' a = heap ?c1 a) \<and>
           (\<forall>n. servers c n \<noteq> None \<longrightarrow> servers c'' n = servers c n) \<and>
           (\<forall>n. servers c n = None \<longrightarrow>
              (if n \<in> set D
               then \<exists>a. servers c'' n = Some a \<and> nextEntry c \<le> a \<and> a < nextEntry c'' \<and>
                        heap c'' a = Some (spawned_entry n)
               else servers c'' n = None))"
      by (simp only: stop_unlisted_fields)
    with sm have rn: "r = None" and
      m: "\<forall>n. servers c n = None \<longrightarrow>
            (if n \<in> set D
             then \<exists>a. servers c' n = Some a \<and> nextEntry c \<le> a \<and> a < nextEntry c' \<and>
                      heap c' a = Some (spawned_entry n)
             else servers c' n = None)"
      by auto
    have "\<forall>name. servers c name = None \<longrightarrow>
        (if name \<in> set D
         then \<exists>a. servers c' name = Some a \<and> nextEntry c \<le> a \<and>
                  heap c' a = Some (spawned_entry name)
         else servers c' name = None)"
    proof (intro allI impI)
      fix name
      assume "servers c name = None"
      with m have "if name \<in> set D
               then \<exists>a. servers c' name = Some a \<and> nextEntry c \<le> a \<and> a < nextEntry c' \<and>
                        heap c' a = Some (spawned_entry name)
               else servers c' name = None"
        by blast
      then show "if name \<in> set D
         then \<exists>a. servers c' name = Some a \<and> nextEntry c \<le> a \<and>
                  heap c' a = Some (spawned_entry name)
         else servers c' name = None"
        by (cases "name \<in> set D") auto
    qed
    with rn show ?thesis
      by simp
  qed
  from stops starts show ?thesis
    by blast
qed

theorem scan_reconciles_witness:
  "range_order [''c'', ''a''] two_tenants \<and> registry_ok two_tenants \<and>
   \<not> draining two_tenants \<and>
   snd (scanTenantsForRunnableServices (Inr [''a'', ''b'']) [''c'', ''a''] all_spawn
          two_tenants) = None \<and>
   servers (fst (scanTenantsForRunnableServices (Inr [''a'', ''b'']) [''c'', ''a''] all_spawn
          two_tenants)) = [''a'' \<mapsto> 0, ''c'' \<mapsto> 1, ''b'' \<mapsto> 2] \<and>
   heap (fst (scanTenantsForRunnableServices (Inr [''a'', ''b'']) [''c'', ''a''] all_spawn
          two_tenants)) 0 = heap two_tenants 0 \<and>
   heap (fst (scanTenantsForRunnableServices (Inr [''a'', ''b'']) [''c'', ''a''] all_spawn
          two_tenants)) 1 = Some (requestStop (spawned_entry ''c'')) \<and>
   heap (fst (scanTenantsForRunnableServices (Inr [''a'', ''b'']) [''c'', ''a''] all_spawn
          two_tenants)) 2 = Some (spawned_entry ''b'')"
proof -
  obtain c' r where
    sc: "scanTenantsForRunnableServices (Inr [''a'', ''b'']) [''c'', ''a''] all_spawn two_tenants
       = (c', r)"
    by (cases "scanTenantsForRunnableServices (Inr [''a'', ''b'']) [''c'', ''a''] all_spawn
        two_tenants")
  have nd: "\<not> draining two_tenants"
    by (simp add: two_tenants_def)
  have sp: "\<forall>name \<in> set [''a'', ''b'']. all_spawn name = (None, None)"
    by (simp add: all_spawn_def)
  from scan_reconciles [OF two_tenants_order two_tenants_ok sc] nd sp
  have "r = None"
    by blast
  with sc have s: "snd (scanTenantsForRunnableServices (Inr [''a'', ''b'']) [''c'', ''a'']
      all_spawn two_tenants) = None"
    by simp
  have eq: "fst (scanTenantsForRunnableServices (Inr [''a'', ''b'']) [''c'', ''a''] all_spawn
      two_tenants) =
      two_tenants\<lparr> heap := (heap two_tenants)(1 \<mapsto> requestStop (spawned_entry ''c''),
                                               2 \<mapsto> spawned_entry ''b''),
                    nextEntry := 3,
                    servers := [''a'' \<mapsto> 0, ''c'' \<mapsto> 1, ''b'' \<mapsto> 2] \<rparr>"
    by (simp add: scanTenantsForRunnableServices_def two_tenants_def requestStop_at_def
        createServerEntryLocked_def startControlledServer_def all_spawn_def)
  show ?thesis
    unfolding eq using s two_tenants_order two_tenants_ok nd by simp
qed

section \<open>\<open>Close\<close> and the control loops\<close>

text \<open>
  \<open>Close\<close> (lines 526-533) blocks on the \<open>stopped\<close> channel of every entry of its
  snapshot, so it is embedded in an interleaving semantics of the whole controller: the
  tasks of every entry in the heap, callers that find or create entries, the draining flag
  and the quiesce of the outer stopper, and one caller of \<open>Close\<close>.

  The program counter of \<open>Close\<close>: in \<open>requestStopAll\<close> (lines 550-566) after the snapshot,
  with the entries still to be asked to stop; between the \<open>Swap\<close> and the \<open>close\<close> of one
  \<open>requestStop\<close>; in the loop of receives, with the entries still to be waited for;
  returned. Each carries the snapshot.
\<close>

datatype close_pc =
    CloseNotCalled
  | CloseRequest "nat list" "nat list"
  | CloseClosing nat "nat list" "nat list"
  | CloseWait "nat list" "nat list"
  | CloseReturned "nat list"

record system =
  ctrl :: serverController
  closer :: close_pc

datatype gaction =
    Ensure "error option" "error option" tenant_name
  | Task nat action
  | SetDraining
  | StopperQuiesce
  | CloseSnapshot "tenant_name list"
  | CloseRequestSwap
  | CloseRequestClose
  | CloseRequested
  | CloseReceive
  | CloseReturn

text \<open>
  A step of a task of the entry at an address. The tasks of an entry see the quiesce of the
  outer stopper only once the stopper quiesces. The last step of the cleanup of the control
  loop is \<open>delete(c.mu.servers, tenantName)\<close> (lines 298-300).
\<close>

definition task_step :: "nat \<Rightarrow> action \<Rightarrow> serverController \<Rightarrow> serverController option" where
  "task_step a act c =
     (case heap c a of
        None \<Rightarrow> None
      | Some e \<Rightarrow>
          (if act = OuterQuiesce \<and> \<not> stopperQuiesce c then None
           else (case step act e of
                   None \<Rightarrow> None
                 | Some e' \<Rightarrow>
                     Some (c\<lparr> heap := (heap c)(a \<mapsto> e'),
                              servers := (if act = DeferDelete
                                          then (servers c)(tenantName e := None)
                                          else servers c) \<rparr>))))"

fun gstep :: "gaction \<Rightarrow> system \<Rightarrow> system option" where
  "gstep (Ensure spawn1 spawn2 name) g =
     Some (g\<lparr> ctrl := fst (startAndWait_entry spawn1 spawn2 name (ctrl g)) \<rparr>)"
| "gstep (Task a act) g =
     (case task_step a act (ctrl g) of
        None \<Rightarrow> None
      | Some c' \<Rightarrow> Some (g\<lparr> ctrl := c' \<rparr>))"
| "gstep SetDraining g = Some (g\<lparr> ctrl := (ctrl g)\<lparr> draining := True \<rparr> \<rparr>)"
| "gstep StopperQuiesce g = Some (g\<lparr> ctrl := (ctrl g)\<lparr> stopperQuiesce := True \<rparr> \<rparr>)"
| "gstep (CloseSnapshot order) g =
     (if closer g = CloseNotCalled \<and> range_order order (ctrl g)
      then Some (g\<lparr> closer := CloseRequest (List.map_filter (servers (ctrl g)) order)
                                             (List.map_filter (servers (ctrl g)) order) \<rparr>)
      else None)"
| "gstep CloseRequestSwap g =
     (case closer g of
        CloseRequest (a # entries) snapshot \<Rightarrow>
          (case heap (ctrl g) a of
             None \<Rightarrow> None
           | Some e \<Rightarrow>
               (case task_step a ExtRequestStopSwap (ctrl g) of
                  None \<Rightarrow> None
                | Some c' \<Rightarrow>
                    Some (g\<lparr> ctrl := c',
                             closer := (if stoppedChClosed e then CloseRequest entries snapshot
                                        else CloseClosing a entries snapshot) \<rparr>)))
      | _ \<Rightarrow> None)"
| "gstep CloseRequestClose g =
     (case closer g of
        CloseClosing a entries snapshot \<Rightarrow>
          (case task_step a ExtRequestStopClose (ctrl g) of
             None \<Rightarrow> None
           | Some c' \<Rightarrow> Some (g\<lparr> ctrl := c', closer := CloseRequest entries snapshot \<rparr>))
      | _ \<Rightarrow> None)"
| "gstep CloseRequested g =
     (case closer g of
        CloseRequest [] snapshot \<Rightarrow> Some (g\<lparr> closer := CloseWait snapshot snapshot \<rparr>)
      | _ \<Rightarrow> None)"
| "gstep CloseReceive g =
     (case closer g of
        CloseWait (a # entries) snapshot \<Rightarrow>
          (if entry_stopped (ctrl g) a then Some (g\<lparr> closer := CloseWait entries snapshot \<rparr>)
           else None)
      | _ \<Rightarrow> None)"
| "gstep CloseReturn g =
     (case closer g of
        CloseWait [] snapshot \<Rightarrow> Some (g\<lparr> closer := CloseReturned snapshot \<rparr>)
      | _ \<Rightarrow> None)"

fun grun :: "gaction list \<Rightarrow> system \<Rightarrow> system option" where
  "grun [] g = Some g"
| "grun (act # sched) g = (case gstep act g of None \<Rightarrow> None | Some g' \<Rightarrow> grun sched g')"

definition initial_system :: system where
  "initial_system = \<lparr> ctrl = empty_controller, closer = CloseNotCalled \<rparr>"

text \<open>
  What stays true of an entry: it stays in the heap, a closed \<open>stopped\<close> stays closed and a
  set flag stays set.
\<close>

definition entry_requested :: "serverController \<Rightarrow> nat \<Rightarrow> bool" where
  "entry_requested c a = (case heap c a of Some e \<Rightarrow> stoppedChClosed e | None \<Rightarrow> False)"

definition fresh_above :: "serverController \<Rightarrow> bool" where
  "fresh_above c = (\<forall>a. nextEntry c \<le> a \<longrightarrow> heap c a = None)"

definition keeps :: "serverController \<Rightarrow> serverController \<Rightarrow> bool" where
  "keeps c c' =
     ((fresh_above c \<longrightarrow> fresh_above c') \<and>
      (\<forall>a. fresh_above c \<and> entry_stopped c a \<longrightarrow> entry_stopped c' a) \<and>
      (\<forall>a. fresh_above c \<and> entry_requested c a \<longrightarrow> entry_requested c' a))"











lemma keeps_refl: "keeps c c"
  by (simp add: keeps_def)









section \<open>The registry in the reachable states\<close>

text \<open>
  The hypotheses on the registry that the theorems above make hold in every state that the
  controller reaches: different names have different entries, every registered entry is
  allocated, and the state of the entry registered under a name is one that a schedule of
  its tasks reaches from the entry that \<open>startControlledServer\<close> returned for that name.
\<close>

definition entries_reachable :: "serverController \<Rightarrow> bool" where
  "entries_reachable c =
     (\<forall>name a. servers c name = Some a \<longrightarrow>
        (\<exists>e sched. heap c a = Some e \<and> run sched (spawned_entry name) = Some e))"

definition registry_inv :: "serverController \<Rightarrow> bool" where
  "registry_inv c =
     (fresh_above c \<and> inj_on (servers c) (dom (servers c)) \<and> entries_reachable c)"

lemma run_snoc:
  "run sched s = Some e \<Longrightarrow> step act e = Some e' \<Longrightarrow> run (sched @ [act]) s = Some e'"
  by (induction sched arbitrary: s) (auto split: option.splits)

lemma registry_inv_ok: "registry_inv c \<Longrightarrow> registry_ok c"
proof -
  assume inv: "registry_inv c"
  have "\<And>name a. servers c name = Some a \<Longrightarrow> a < nextEntry c \<and> heap c a \<noteq> None"
  proof -
    fix name a
    assume "servers c name = Some a"
    with inv obtain e where h: "heap c a = Some e"
      by (auto simp: registry_inv_def entries_reachable_def)
    with inv have "\<not> nextEntry c \<le> a"
      by (auto simp: registry_inv_def fresh_above_def)
    with h show "a < nextEntry c \<and> heap c a \<noteq> None"
      by simp
  qed
  with inv show ?thesis
    by (simp add: registry_ok_def registry_inv_def)
qed

lemma registry_inv_flags:
  "registry_inv c \<Longrightarrow> registry_inv (c\<lparr> draining := d \<rparr>)"
  "registry_inv c \<Longrightarrow> registry_inv (c\<lparr> stopperQuiesce := q \<rparr>)"
  by (simp_all add: registry_inv_def fresh_above_def entries_reachable_def)

lemma registry_inv_create:
  assumes inv: "registry_inv c" and absent: "servers c name = None"
  shows "registry_inv (c\<lparr> heap := (heap c)(nextEntry c \<mapsto> spawned_entry name),
                        nextEntry := Suc (nextEntry c),
                        servers := (servers c)(name \<mapsto> nextEntry c) \<rparr>)"
proof -
  let ?c' = "c\<lparr> heap := (heap c)(nextEntry c \<mapsto> spawned_entry name),
                        nextEntry := Suc (nextEntry c),
                        servers := (servers c)(name \<mapsto> nextEntry c) \<rparr>"
  from inv have ok: "registry_ok c"
    by (rule registry_inv_ok)
  then have lt: "\<And>n a. servers c n = Some a \<Longrightarrow> a < nextEntry c"
    by (auto simp: registry_ok_def)
  from inv have "fresh_above ?c'"
    by (simp add: registry_inv_def fresh_above_def)
  moreover have "inj_on (servers ?c') (dom (servers ?c'))"
  proof (rule inj_onI)
    fix x y
    assume x: "x \<in> dom (servers ?c')" and y: "y \<in> dom (servers ?c')"
      and eq: "servers ?c' x = servers ?c' y"
    show "x = y"
    proof (cases "x = name")
      case True
      with eq have "servers ?c' y = Some (nextEntry c)"
        by simp
      then have "y = name"
        using lt [of y "nextEntry c"] by (auto split: if_splits)
      with True show ?thesis
        by simp
    next
      case False
      with x obtain a where a: "servers c x = Some a"
        by auto
      with eq False have "servers ?c' y = Some a"
        by simp
      with lt [OF a] have "y \<noteq> name" and "servers c y = Some a"
        by (auto split: if_splits)
      with a inv show ?thesis
        by (auto simp: registry_inv_def inj_on_def dom_def)
    qed
  qed
  moreover have "entries_reachable ?c'"
    unfolding entries_reachable_def
  proof (intro allI impI)
    fix n a
    assume s: "servers ?c' n = Some a"
    show "\<exists>e sched. heap ?c' a = Some e \<and> run sched (spawned_entry n) = Some e"
    proof (cases "n = name")
      case True
      with s have "heap ?c' a = Some (spawned_entry n) \<and>
          run [] (spawned_entry n) = Some (spawned_entry n)"
        by simp
      then show ?thesis
        by blast
    next
      case False
      with s have s': "servers c n = Some a"
        by simp
      with lt have "a \<noteq> nextEntry c"
        by fastforce
      with s' inv show ?thesis
        by (auto simp: registry_inv_def entries_reachable_def)
    qed
  qed
  ultimately show ?thesis
    by (simp add: registry_inv_def)
qed

lemma registry_inv_garbage:
  assumes inv: "registry_inv c"
  shows "registry_inv (c\<lparr> heap := (heap c)(nextEntry c \<mapsto> e), nextEntry := Suc (nextEntry c) \<rparr>)"
proof -
  from inv have "registry_ok c"
    by (rule registry_inv_ok)
  then have "\<And>n a. servers c n = Some a \<Longrightarrow> a \<noteq> nextEntry c"
    by (fastforce simp: registry_ok_def)
  with inv show ?thesis
    by (auto simp: registry_inv_def fresh_above_def entries_reachable_def)
qed

lemma startAndWait_entry_registry_inv:
  assumes "registry_inv c"
  shows "registry_inv (fst (startAndWait_entry spawn1 spawn2 name c))"
proof (cases "servers c name")
  case (Some a)
  with assms show ?thesis
    by (simp add: startAndWait_entry_def)
next
  case None
  show ?thesis
  proof (cases "draining c \<or> spawn1 \<noteq> None")
    case True
    with None assms show ?thesis
      by (auto simp: startAndWait_entry_def createServerEntryLocked_def
          startControlledServer_def)
  next
    case False
    show ?thesis
    proof (cases spawn2)
      case (Some e2)
      with None False registry_inv_garbage [OF assms] show ?thesis
        by (auto simp: startAndWait_entry_def createServerEntryLocked_def
            startControlledServer_def)
    next
      case n2: None
      with None False registry_inv_create [OF assms None] show ?thesis
        by (auto simp: startAndWait_entry_def createServerEntryLocked_def
            startControlledServer_def)
    qed
  qed
qed

lemma task_step_registry_inv:
  assumes inv: "registry_inv c" and t: "task_step a act c = Some c'"
  shows "registry_inv c'"
proof -
  from t obtain e e' where h: "heap c a = Some e" and st: "step act e = Some e'"
    and c': "c' = c\<lparr> heap := (heap c)(a \<mapsto> e'),
                     servers := (if act = DeferDelete then (servers c)(tenantName e := None)
                                 else servers c) \<rparr>"
    by (auto simp: task_step_def split: option.splits if_splits)
  have sub: "\<And>n b. servers c' n = Some b \<Longrightarrow> servers c n = Some b"
    by (auto simp: c' split: if_splits)
  from inv h have "fresh_above c'"
    by (auto simp: registry_inv_def fresh_above_def c')
  moreover have "inj_on (servers c') (dom (servers c'))"
  proof (rule inj_onI)
    fix x y
    assume "x \<in> dom (servers c')" "y \<in> dom (servers c')" "servers c' x = servers c' y"
    then obtain b where "servers c' x = Some b" "servers c' y = Some b"
      by auto
    then have "servers c x = Some b" "servers c y = Some b"
      by (auto dest: sub)
    with inv show "x = y"
      by (auto simp: registry_inv_def inj_on_def dom_def)
  qed
  moreover have "entries_reachable c'"
    unfolding entries_reachable_def
  proof (intro allI impI)
    fix n b
    assume "servers c' n = Some b"
    then have s: "servers c n = Some b"
      by (rule sub)
    with inv have "\<exists>e0 sched. heap c b = Some e0 \<and> run sched (spawned_entry n) = Some e0"
      by (simp add: registry_inv_def entries_reachable_def)
    then obtain e0 sched where h0: "heap c b = Some e0"
      and r: "run sched (spawned_entry n) = Some e0"
      by blast
    show "\<exists>e sched. heap c' b = Some e \<and> run sched (spawned_entry n) = Some e"
    proof (cases "b = a")
      case True
      with h h0 have "e0 = e"
        by simp
      with r st have "run (sched @ [act]) (spawned_entry n) = Some e'"
        by (simp add: run_snoc)
      moreover from True have "heap c' b = Some e'"
        by (simp add: c')
      ultimately show ?thesis
        by blast
    next
      case False
      with h0 have "heap c' b = Some e0"
        by (simp add: c')
      with r show ?thesis
        by blast
    qed
  qed
  ultimately show ?thesis
    by (simp add: registry_inv_def)
qed

lemma gstep_registry_inv:
  assumes "registry_inv (ctrl g)" and "gstep act g = Some g'"
  shows "registry_inv (ctrl g')"
proof (cases act)
  case (Ensure spawn1 spawn2 name)
  with assms startAndWait_entry_registry_inv show ?thesis
    by auto
next
  case (Task a act')
  with assms show ?thesis
    by (auto split: option.splits dest: task_step_registry_inv)
next
  case SetDraining
  with assms registry_inv_flags(1) show ?thesis
    by auto
next
  case StopperQuiesce
  with assms registry_inv_flags(2) show ?thesis
    by auto
next
  case (CloseSnapshot order)
  with assms show ?thesis
    by (auto split: if_splits)
next
  case CloseRequestSwap
  with assms show ?thesis
    by (auto split: close_pc.splits list.splits option.splits dest: task_step_registry_inv)
next
  case CloseRequestClose
  with assms show ?thesis
    by (auto split: close_pc.splits option.splits dest: task_step_registry_inv)
next
  case CloseRequested
  with assms show ?thesis
    by (auto split: close_pc.splits list.splits)
next
  case CloseReceive
  with assms show ?thesis
    by (auto split: close_pc.splits list.splits if_splits)
next
  case CloseReturn
  with assms show ?thesis
    by (auto split: close_pc.splits list.splits)
qed

lemma grun_registry_inv:
  "registry_inv (ctrl g) \<Longrightarrow> grun sched g = Some g' \<Longrightarrow> registry_inv (ctrl g')"
proof (induction sched arbitrary: g)
  case Nil
  then show ?case by simp
next
  case (Cons act sched)
  then show ?case
    by (auto split: option.splits dest: gstep_registry_inv)
qed

lemma reachable_registry_ok:
  assumes "grun sched initial_system = Some g"
  shows "registry_ok (ctrl g) \<and> entries_reachable (ctrl g)"
proof -
  have "registry_inv (ctrl initial_system)"
    by (simp add: registry_inv_def initial_system_def empty_controller_def fresh_above_def
        entries_reachable_def)
  from grun_registry_inv [OF this assms] show ?thesis
    by (simp add: registry_inv_ok) (simp add: registry_inv_def)
qed

end
